theory Spec2Isabelle
  imports Complex_Main
begin

section \<open>Data model (content_aware_cache.h)\<close>

text \<open>
  Conventions of the embedding.
  \<^item> \<open>size_t\<close> values are \<open>nat\<close>; where the source computes on them the
    wrap-around of the 64-bit type is written out with \<open>size_t\<close> and \<open>size_t_sub\<close>.
    The four statistics counters are plain \<open>nat\<close>.
  \<^item> \<open>float\<close> values are \<open>real\<close>: rounding and NaN are not modelled.
  \<^item> A \<open>time_point\<close> is the integer tick count of \<open>system_clock\<close>, with
    \<open>ticks_per_second\<close> ticks to the second (the period is the library's: nanoseconds
    here); the clock reading of an operation is its argument \<open>now\<close>, taken once per
    operation.
  \<^item> A \<open>std::shared_ptr<CacheEntry>\<close> is a reference into the store \<open>heap\<close>
    of the machine state: the entry map and every handle hold references, so an entry
    evicted from the map stays reachable through a handle, as in the source.
  \<^item> \<open>cacheMap\<close> is an association list in iteration order. The iteration order of
    a \<open>std::unordered_map\<close> is unspecified; the model inserts at the front.
  \<^item> \<open>lruMap\<close> is the index of \<open>lruList\<close> by path and is represented by
    membership in \<open>lruList\<close>.
  \<^item> The backing filesystem is outside the program: every operation that touches it
    takes the filesystem's answers as a \<open>Disk\<close>.
\<close>

type_synonym byte = char
type_synonym ref = nat
type_synonym time_point = int

definition size_t :: "nat \<Rightarrow> nat" where
  "size_t n = n mod 2 ^ 64"

definition size_t_sub :: "nat \<Rightarrow> nat \<Rightarrow> nat" where
  "size_t_sub a b = (if b \<le> a then a - b else a + 2 ^ 64 - b)"

definition FLT_MAX :: real where
  "FLT_MAX = 340282346638528859811704183484516925440"

definition ticks_per_second :: int where
  "ticks_per_second = 1000000000"

definition SEEK_SET :: int where "SEEK_SET = 0"
definition SEEK_CUR :: int where "SEEK_CUR = 1"
definition SEEK_END :: int where "SEEK_END = 2"

record FileMetadata =
  filePath :: string
  fileType :: string
  fileSize :: nat
  lastModified :: time_point

record AccessStats =
  accessCount :: nat
  lastAccessed :: time_point

record CacheEntry =
  metadata :: FileMetadata
  stats :: AccessStats
  data :: "byte list"
  priorityScore :: real

record CacheFile =
  entry :: ref
  position :: nat
  mode :: string
  modified :: bool
  cachePtr :: bool

record ContentAwareCache =
  maxCacheSize :: nat
  currentCacheSize :: nat
  cacheMap :: "(string \<times> ref) list"
  lruList :: "string list"
  cacheHits :: nat
  cacheMisses :: nat
  diskReads :: nat
  diskWrites :: nat
  fileTypePriorities :: "string \<Rightarrow> real option"
  heap :: "ref \<Rightarrow> CacheEntry"
  next_ref :: ref

record Disk =
  fs_exists :: "string \<Rightarrow> bool"
  fs_extension :: "string \<Rightarrow> string"
  fs_probe :: "string \<Rightarrow> (nat \<times> time_point) option"
  fs_read :: "string \<Rightarrow> (byte list \<times> bool) option"
  fs_write :: "string \<Rightarrow> bool"

text \<open>
  \<open>fs_extension\<close> is \<open>fs::path::extension\<close>; \<open>fs_probe p\<close> is \<open>None\<close> when
  \<open>fs::file_size\<close> or \<open>fs::last_write_time\<close> throws, else the size and the time;
  \<open>fs_read p\<close> is \<open>None\<close> when the input stream cannot be opened, else the bytes of
  the file and whether the read ended without a failure other than end-of-file;
  \<open>fs_write p\<close> says whether opening \<open>p\<close> for output and writing to it succeed.
  \<open>cachePtr\<close> of a handle says whether \<open>cachePtr.lock()\<close> yields the engine.
\<close>

datatype fault = DivisionByZero | OutOfBounds | NoReturn

text \<open>
  A \<open>fault\<close> is what the source does instead of returning: an integer division by
  zero, a \<open>memcpy\<close> outside its buffers, or a loop that never ends.
\<close>

definition AccessStats_init :: "time_point \<Rightarrow> AccessStats" where
  "AccessStats_init now = \<lparr>accessCount = 0, lastAccessed = now\<rparr>"

definition CacheEntry_init :: "FileMetadata \<Rightarrow> time_point \<Rightarrow> CacheEntry" where
  "CacheEntry_init meta now =
     \<lparr>metadata = meta, stats = AccessStats_init now, data = [], priorityScore = 0\<rparr>"

definition getMemoryUsage :: "CacheEntry \<Rightarrow> nat" where
  "getMemoryUsage e = length (data e)"

definition CacheFile_init :: "ref \<Rightarrow> string \<Rightarrow> CacheFile" where
  "CacheFile_init r m = \<lparr>entry = r, position = 0, mode = m, modified = False, cachePtr = True\<rparr>"

definition default_priorities :: "(string \<times> real) list" where
  "default_priorities =
     [(''.txt'', 0.7), (''.cfg'', 0.9), (''.conf'', 0.9), (''.ini'', 0.9), (''.log'', 0.6),
      (''.json'', 0.8), (''.xml'', 0.8), (''.cpp'', 0.7), (''.h'', 0.7), (''.c'', 0.7),
      (''.py'', 0.7), (''.jpg'', 0.4), (''.png'', 0.4), (''.pdf'', 0.3), (''.exe'', 0.1),
      (''.so'', 0.1), (''.dll'', 0.1)]"

definition ContentAwareCache_init :: "nat \<Rightarrow> ContentAwareCache" where
  "ContentAwareCache_init maxSize =
     \<lparr>maxCacheSize = maxSize, currentCacheSize = 0, cacheMap = [], lruList = [],
      cacheHits = 0, cacheMisses = 0, diskReads = 0, diskWrites = 0,
      fileTypePriorities = map_of default_priorities,
      heap = (\<lambda>r. CacheEntry_init \<lparr>filePath = [], fileType = [], fileSize = 0, lastModified = 0\<rparr> 0),
      next_ref = 0\<rparr>"

section \<open>Handle operations that do not call the engine\<close>

definition CacheFile_read ::
  "CacheFile \<Rightarrow> nat \<Rightarrow> nat \<Rightarrow> ContentAwareCache \<Rightarrow> fault + (nat \<times> byte list \<times> CacheFile)" where
  "CacheFile_read h sz count c =
     (if CHR ''r'' \<notin> set (mode h) then Inr (0, [], h)
      else
        let bytesToRead = size_t (sz * count);
            bytesAvailable = size_t_sub (length (data (heap c (entry h)))) (position h);
            bytesToCopy = min bytesToRead bytesAvailable;
            copied = take bytesToCopy (drop (position h) (data (heap c (entry h))));
            h' = (if bytesToCopy > 0 then h\<lparr>position := size_t (position h + bytesToCopy)\<rparr> else h)
        in if bytesToCopy > 0 \<and> position h + bytesToCopy > length (data (heap c (entry h)))
           then Inl OutOfBounds
           else if sz = 0 then Inl DivisionByZero
           else Inr (bytesToCopy div sz, copied, h'))"

definition CacheFile_seek :: "CacheFile \<Rightarrow> int \<Rightarrow> int \<Rightarrow> ContentAwareCache \<Rightarrow> int \<times> CacheFile" where
  "CacheFile_seek h offset origin c =
     (if origin \<noteq> SEEK_SET \<and> origin \<noteq> SEEK_CUR \<and> origin \<noteq> SEEK_END then (-1, h)
      else
        let newPosition =
              (if origin = SEEK_SET then nat (offset mod 2 ^ 64)
               else if origin = SEEK_CUR then nat ((int (position h) + offset) mod 2 ^ 64)
               else nat ((int (length (data (heap c (entry h)))) + offset) mod 2 ^ 64))
        in if newPosition > length (data (heap c (entry h))) then (-1, h)
           else (0, h\<lparr>position := newPosition\<rparr>))"

definition CacheFile_tell :: "CacheFile \<Rightarrow> int" where
  "CacheFile_tell h = int (position h)"

section \<open>Priority scorer, LRU index and eviction selector\<close>

definition duration_cast_seconds :: "int \<Rightarrow> int" where
  "duration_cast_seconds d =
     (if 0 \<le> d then d div ticks_per_second else - ((- d) div ticks_per_second))"

definition calculatePriorityScore ::
  "(string \<Rightarrow> real option) \<Rightarrow> CacheEntry \<Rightarrow> time_point \<Rightarrow> real" where
  "calculatePriorityScore priorities e now =
     (let typePriority =
            (case priorities (fileType (metadata e)) of None \<Rightarrow> 0.5 | Some p \<Rightarrow> p);
          sizeScore =
            (if fileSize (metadata e) > 1024
             then min 1 (10240 / real (fileSize (metadata e))) else 1);
          accessScore = 0.1 + min 0.9 (log 2 (1 + real (accessCount (stats e))) / 10);
          duration = duration_cast_seconds (now - lastAccessed (stats e));
          recencyScore = exp (- real_of_int duration / 3600)
      in typePriority * 0.3 + sizeScore * 0.2 + accessScore * 0.3 + recencyScore * 0.2)"

definition updateLRU :: "string \<Rightarrow> ContentAwareCache \<Rightarrow> ContentAwareCache" where
  "updateLRU path c = c\<lparr>lruList := path # remove1 path (lruList c)\<rparr>"

fun scan_lowest ::
  "(ref \<Rightarrow> CacheEntry) \<Rightarrow> (string \<times> ref) list \<Rightarrow> string \<times> real \<Rightarrow> string \<times> real" where
  "scan_lowest hp [] acc = acc"
| "scan_lowest hp ((path, r) # rest) (candidatePath, lowestScore) =
     (if priorityScore (hp r) < lowestScore
      then scan_lowest hp rest (path, priorityScore (hp r))
      else scan_lowest hp rest (candidatePath, lowestScore))"

definition findEntryForEviction :: "ContentAwareCache \<Rightarrow> string" where
  "findEntryForEviction c =
     (if cacheMap c = [] then []
      else
        let candidatePath = fst (scan_lowest (heap c) (cacheMap c) ([], FLT_MAX))
        in if candidatePath = [] \<and> lruList c \<noteq> [] then last (lruList c)
           else candidatePath)"

definition evictFile :: "string \<Rightarrow> ContentAwareCache \<Rightarrow> ContentAwareCache" where
  "evictFile path c =
     (case map_of (cacheMap c) path of
        None \<Rightarrow> c
      | Some r \<Rightarrow>
          c\<lparr>currentCacheSize := size_t_sub (currentCacheSize c) (getMemoryUsage (heap c r)),
            lruList := remove1 path (lruList c),
            cacheMap := filter (\<lambda>kv. fst kv \<noteq> path) (cacheMap c)\<rparr>)"

section \<open>Score maintenance and making room\<close>

definition rescored :: "(string \<Rightarrow> real option) \<Rightarrow> time_point \<Rightarrow> CacheEntry \<Rightarrow> CacheEntry" where
  "rescored priorities now e = e\<lparr>priorityScore := calculatePriorityScore priorities e now\<rparr>"

definition updateEntryScore :: "string \<Rightarrow> time_point \<Rightarrow> ContentAwareCache \<Rightarrow> ContentAwareCache" where
  "updateEntryScore path now c =
     (case map_of (cacheMap c) path of
        None \<Rightarrow> c
      | Some r \<Rightarrow> c\<lparr>heap := (heap c)(r := rescored (fileTypePriorities c) now (heap c r))\<rparr>)"

fun updateAllScores_loop ::
  "(string \<Rightarrow> real option) \<Rightarrow> time_point \<Rightarrow> (string \<times> ref) list \<Rightarrow>
   (ref \<Rightarrow> CacheEntry) \<Rightarrow> (ref \<Rightarrow> CacheEntry)" where
  "updateAllScores_loop priorities now [] hp = hp"
| "updateAllScores_loop priorities now ((path, r) # rest) hp =
     updateAllScores_loop priorities now rest (hp(r := rescored priorities now (hp r)))"

definition updateAllScores :: "time_point \<Rightarrow> ContentAwareCache \<Rightarrow> ContentAwareCache" where
  "updateAllScores now c =
     c\<lparr>heap := updateAllScores_loop (fileTypePriorities c) now (cacheMap c) (heap c)\<rparr>"

text \<open>
  The eviction loop of \<open>makeRoomInCache\<close>. \<open>evictFile\<close> returns at once on a path
  that is not a key of the entry map, so with such a victim the loop of the source repeats
  in the same state for ever: that is the result \<open>Inl NoReturn\<close>.
\<close>

function makeRoomInCache_loop :: "nat \<Rightarrow> ContentAwareCache \<Rightarrow> fault + ContentAwareCache" where
  "makeRoomInCache_loop requiredSize c =
     (if size_t (currentCacheSize c + requiredSize) > maxCacheSize c \<and> cacheMap c \<noteq> []
      then
        (if findEntryForEviction c = [] then Inr c
         else if map_of (cacheMap c) (findEntryForEviction c) = None then Inl NoReturn
         else makeRoomInCache_loop requiredSize (evictFile (findEntryForEviction c) c))
      else Inr c)"
  by pat_completeness auto
termination
proof (relation "measure (\<lambda>(requiredSize, c). length (cacheMap c))")
  show "wf (measure (\<lambda>(requiredSize, c). length (cacheMap c)))"
    by simp
next
  fix requiredSize :: nat and c :: ContentAwareCache
  assume "map_of (cacheMap c) (findEntryForEviction c) \<noteq> None"
  then obtain r where "map_of (cacheMap c) (findEntryForEviction c) = Some r"
    by blast
  moreover from this have "(findEntryForEviction c, r) \<in> set (cacheMap c)"
    by (rule map_of_SomeD)
  then have "length (filter (\<lambda>kv. fst kv \<noteq> findEntryForEviction c) (cacheMap c))
               < length (cacheMap c)"
    by (intro length_filter_less [where x = "(findEntryForEviction c, r)"]) simp_all
  ultimately show "((requiredSize, evictFile (findEntryForEviction c) c), (requiredSize, c))
                     \<in> measure (\<lambda>(requiredSize, c). length (cacheMap c))"
    by (simp add: evictFile_def)
qed

declare makeRoomInCache_loop.simps [simp del]

definition makeRoomInCache ::
  "nat \<Rightarrow> time_point \<Rightarrow> ContentAwareCache \<Rightarrow> fault + ContentAwareCache" where
  "makeRoomInCache requiredSize now c =
     (if size_t (currentCacheSize c + requiredSize) \<le> maxCacheSize c then Inr c
      else
        (case makeRoomInCache_loop requiredSize (updateAllScores now c) of
           Inl f \<Rightarrow> Inl f
         | Inr c' \<Rightarrow>
             Inr (if size_t (currentCacheSize c' + requiredSize) > maxCacheSize c'
                  then c'\<lparr>maxCacheSize := size_t (currentCacheSize c' + requiredSize)\<rparr>
                  else c')))"

section \<open>Admission\<close>

definition getFileMetadata :: "Disk \<Rightarrow> string \<Rightarrow> time_point \<Rightarrow> FileMetadata" where
  "getFileMetadata d path now =
     (case fs_probe d path of
        Some (n, t) \<Rightarrow>
          \<lparr>filePath = path, fileType = fs_extension d path, fileSize = n, lastModified = t\<rparr>
      | None \<Rightarrow>
          \<lparr>filePath = path, fileType = fs_extension d path, fileSize = 0, lastModified = now\<rparr>)"

definition resize :: "nat \<Rightarrow> byte list \<Rightarrow> byte list" where
  "resize n bs = take n bs @ replicate (n - length bs) (CHR 0x00)"

text \<open>
  \<open>loadFileIntoCache\<close> returns \<open>bool\<close>; the model returns \<open>Some r\<close> for \<open>true\<close>,
  where \<open>r\<close> is the entry it stored under the path (what \<open>cacheMap[filePath]\<close> then
  yields in \<open>openFile\<close>), and \<open>None\<close> for \<open>false\<close>.
\<close>

definition loadFileIntoCache ::
  "Disk \<Rightarrow> string \<Rightarrow> time_point \<Rightarrow> ContentAwareCache \<Rightarrow> fault + (ref option \<times> ContentAwareCache)" where
  "loadFileIntoCache d path now c =
     (let meta = getFileMetadata d path now in
      if fileSize meta = 0 then Inr (None, c)
      else
        (case makeRoomInCache (fileSize meta) now c of
           Inl f \<Rightarrow> Inl f
         | Inr c1 \<Rightarrow>
             (case fs_read d path of
                None \<Rightarrow> Inr (None, c1)
              | Some (bytes, ok) \<Rightarrow>
                  if \<not> ok then Inr (None, c1)
                  else
                    let r = next_ref c1;
                        e = (CacheEntry_init meta now)\<lparr>data := resize (fileSize meta) bytes\<rparr>;
                        c2 = c1\<lparr>heap := (heap c1)(r := e), next_ref := r + 1,
                                cacheMap := (path, r) # cacheMap c1,
                                currentCacheSize := size_t (currentCacheSize c1 + fileSize meta)\<rparr>;
                        c3 = (updateLRU path c2)\<lparr>diskReads := diskReads c2 + 1\<rparr>
                    in Inr (Some r,
                            c3\<lparr>heap := (heap c3)(r := rescored (fileTypePriorities c3) now e)\<rparr>))))"

text \<open>
  \<open>openFile\<close> returns a pointer; \<open>None\<close> is \<open>nullptr\<close>. The first \<open>None\<close> below is the
  return for a missing file opened for reading, the second the return after a failed load.
\<close>

definition openFile ::
  "Disk \<Rightarrow> string \<Rightarrow> string \<Rightarrow> time_point \<Rightarrow> ContentAwareCache \<Rightarrow>
   fault + (CacheFile option \<times> ContentAwareCache)" where
  "openFile d path m now c =
     (case map_of (cacheMap c) path of
        Some r \<Rightarrow>
          Inr (Some (CacheFile_init r m), updateLRU path (c\<lparr>cacheHits := cacheHits c + 1\<rparr>))
      | None \<Rightarrow>
          let c1 = c\<lparr>cacheMisses := cacheMisses c + 1\<rparr> in
          if CHR ''r'' \<in> set m \<and> \<not> fs_exists d path then Inr (None, c1)
          else if CHR ''w'' \<in> set m then
            let meta = (getFileMetadata d path now)\<lparr>fileSize := 0\<rparr>;
                r = next_ref c1;
                c2 = c1\<lparr>heap := (heap c1)(r := CacheEntry_init meta now), next_ref := r + 1,
                        cacheMap := (path, r) # cacheMap c1\<rparr>
            in Inr (Some (CacheFile_init r m), updateLRU path c2)
          else
            (case loadFileIntoCache d path now c1 of
               Inl f \<Rightarrow> Inl f
             | Inr (Some r, c2) \<Rightarrow> Inr (Some (CacheFile_init r m), c2)
             | Inr (None, c2) \<Rightarrow> Inr (None, c2)))"

section \<open>Handle operations that call the engine\<close>

definition grow_entry ::
  "ref \<Rightarrow> nat \<Rightarrow> time_point \<Rightarrow> ContentAwareCache \<Rightarrow> fault + ContentAwareCache" where
  "grow_entry r newSize now c =
     (let oldSize = length (data (heap c r));
          additionalSpace = size_t_sub newSize oldSize
      in case makeRoomInCache additionalSpace now c of
           Inl f \<Rightarrow> Inl f
         | Inr c1 \<Rightarrow>
             Inr (c1\<lparr>heap := (heap c1)(r := (heap c1 r)\<lparr>data := resize newSize (data (heap c1 r))\<rparr>),
                     currentCacheSize := size_t (currentCacheSize c1 + additionalSpace)\<rparr>))"

text \<open>
  \<open>CacheFile_write\<close>: \<open>buffer\<close> is the caller's memory behind the pointer. The final
  \<open>memcpy\<close> reads \<open>bytesToWrite\<close> bytes of it and writes them at \<open>position\<close>; where
  either range leaves its buffer the result is \<open>Inl OutOfBounds\<close>.
\<close>

definition CacheFile_write ::
  "CacheFile \<Rightarrow> byte list \<Rightarrow> nat \<Rightarrow> nat \<Rightarrow> time_point \<Rightarrow> ContentAwareCache \<Rightarrow>
   fault + (nat \<times> CacheFile \<times> ContentAwareCache)" where
  "CacheFile_write h buffer sz count now c =
     (if CHR ''w'' \<notin> set (mode h) \<and> CHR ''a'' \<notin> set (mode h) then Inr (0, h, c)
      else
        let bytesToWrite = size_t (sz * count);
            pos = (if CHR ''a'' \<in> set (mode h) \<and> position h \<noteq> length (data (heap c (entry h)))
                   then length (data (heap c (entry h))) else position h)
        in case (if size_t (pos + bytesToWrite) > length (data (heap c (entry h))) \<and> cachePtr h
                 then grow_entry (entry h) (size_t (pos + bytesToWrite)) now c
                 else Inr c) of
             Inl f \<Rightarrow> Inl f
           | Inr c1 \<Rightarrow>
               let bs = data (heap c1 (entry h)) in
               if length buffer < bytesToWrite \<or> pos + bytesToWrite > length bs
               then Inl OutOfBounds
               else
                 Inr (count,
                      h\<lparr>position := size_t (pos + bytesToWrite), modified := True\<rparr>,
                      c1\<lparr>heap := (heap c1)(entry h := (heap c1 (entry h))
                            \<lparr>data := take pos bs @ take bytesToWrite buffer
                                       @ drop (pos + bytesToWrite) bs\<rparr>)\<rparr>))"

definition CacheFile_flush ::
  "Disk \<Rightarrow> CacheFile \<Rightarrow> ContentAwareCache \<Rightarrow> int \<times> CacheFile \<times> ContentAwareCache" where
  "CacheFile_flush d h c =
     (if \<not> modified h then (0, h, c)
      else if \<not> fs_write d (filePath (metadata (heap c (entry h)))) then (-1, h, c)
      else (0, h\<lparr>modified := False\<rparr>,
            if cachePtr h then c\<lparr>diskWrites := diskWrites c + 1\<rparr> else c))"

text \<open>The destructor of a handle, which \<open>closeFile\<close> runs through \<open>delete\<close>.\<close>

definition CacheFile_destroy ::
  "Disk \<Rightarrow> CacheFile \<Rightarrow> time_point \<Rightarrow> ContentAwareCache \<Rightarrow> ContentAwareCache" where
  "CacheFile_destroy d h now c =
     (let c1 = (if modified h then snd (snd (CacheFile_flush d h c)) else c) in
      if cachePtr h then
        let e = heap c1 (entry h);
            e' = e\<lparr>stats := \<lparr>accessCount = size_t (accessCount (stats e) + 1), lastAccessed = now\<rparr>\<rparr>
        in updateEntryScore (filePath (metadata e')) now (c1\<lparr>heap := (heap c1)(entry h := e')\<rparr>)
      else c1)"

definition closeFile ::
  "Disk \<Rightarrow> CacheFile option \<Rightarrow> time_point \<Rightarrow> ContentAwareCache \<Rightarrow> bool \<times> ContentAwareCache" where
  "closeFile d file now c =
     (case file of Some h \<Rightarrow> (True, CacheFile_destroy d h now c) | None \<Rightarrow> (False, c))"

section \<open>Engine operations\<close>

fun flush_loop :: "Disk \<Rightarrow> (ref \<Rightarrow> CacheEntry) \<Rightarrow> (string \<times> ref) list \<Rightarrow> nat \<Rightarrow> nat" where
  "flush_loop d hp [] writes = writes"
| "flush_loop d hp ((path, r) # rest) writes =
     flush_loop d hp rest
       (if fs_write d (filePath (metadata (hp r))) then writes + 1 else writes)"

definition flush :: "Disk \<Rightarrow> ContentAwareCache \<Rightarrow> ContentAwareCache" where
  "flush d c = c\<lparr>diskWrites := flush_loop d (heap c) (cacheMap c) (diskWrites c)\<rparr>"

definition resizeCache ::
  "nat \<Rightarrow> time_point \<Rightarrow> ContentAwareCache \<Rightarrow> fault + ContentAwareCache" where
  "resizeCache newMaxSize now c =
     (case (if newMaxSize < maxCacheSize c
            then makeRoomInCache (size_t_sub (maxCacheSize c) newMaxSize) now c
            else Inr c) of
        Inl f \<Rightarrow> Inl f
      | Inr c1 \<Rightarrow> Inr (c1\<lparr>maxCacheSize := newMaxSize\<rparr>))"

fun setFileTypePriority_loop ::
  "string \<Rightarrow> (string \<Rightarrow> real option) \<Rightarrow> time_point \<Rightarrow> (string \<times> ref) list \<Rightarrow>
   (ref \<Rightarrow> CacheEntry) \<Rightarrow> (ref \<Rightarrow> CacheEntry)" where
  "setFileTypePriority_loop ext priorities now [] hp = hp"
| "setFileTypePriority_loop ext priorities now ((path, r) # rest) hp =
     setFileTypePriority_loop ext priorities now rest
       (if fileType (metadata (hp r)) = ext
        then hp(r := rescored priorities now (hp r)) else hp)"

definition with_leading_dot :: "string \<Rightarrow> string" where
  "with_leading_dot extension =
     (if extension \<noteq> [] \<and> hd extension \<noteq> CHR ''.'' then ''.'' @ extension else extension)"

definition setFileTypePriority ::
  "string \<Rightarrow> real \<Rightarrow> time_point \<Rightarrow> ContentAwareCache \<Rightarrow> ContentAwareCache" where
  "setFileTypePriority extension priority now c =
     (let ext = with_leading_dot extension;
          priorities = (fileTypePriorities c)(ext \<mapsto> max 0 (min 1 priority))
      in c\<lparr>fileTypePriorities := priorities,
           heap := setFileTypePriority_loop ext priorities now (cacheMap c) (heap c)\<rparr>)"

definition counters :: "ContentAwareCache \<Rightarrow> nat \<times> nat \<times> nat \<times> nat" where
  "counters c = (cacheHits c, cacheMisses c, diskReads c, diskWrites c)"

section \<open>Reachable states and their invariant\<close>

text \<open>
  \<open>reachable ts c\<close>: the engine state \<open>c\<close> is reached from a newly constructed engine
  by public operations of the engine and of handles; \<open>ts\<close> lists the clock readings of
  these operations, the latest first. A handle is any handle value over an allocated
  entry. Operations run one after the other: \<open>cacheMutex\<close> is not modelled.
  \<open>clear\<close> is left out: it calls \<open>flush\<close> while it holds the mutex that
  \<open>flush\<close> locks.
\<close>

inductive reachable :: "time_point list \<Rightarrow> ContentAwareCache \<Rightarrow> bool" where
  reach_init: "reachable [] (ContentAwareCache_init maxSize)"
| reach_openFile:
    "reachable ts c \<Longrightarrow> openFile d path m now c = Inr (file, c') \<Longrightarrow> reachable (now # ts) c'"
| reach_write:
    "reachable ts c \<Longrightarrow> entry h < next_ref c \<Longrightarrow>
     CacheFile_write h buffer sz count now c = Inr (n, h', c') \<Longrightarrow> reachable (now # ts) c'"
| reach_handle_flush:
    "reachable ts c \<Longrightarrow> entry h < next_ref c \<Longrightarrow>
     CacheFile_flush d h c = (res, h', c') \<Longrightarrow> reachable ts c'"
| reach_closeFile:
    "reachable ts c \<Longrightarrow> entry h < next_ref c \<Longrightarrow>
     closeFile d (Some h) now c = (ok, c') \<Longrightarrow> reachable (now # ts) c'"
| reach_flush: "reachable ts c \<Longrightarrow> reachable ts (flush d c)"
| reach_resizeCache:
    "reachable ts c \<Longrightarrow> resizeCache newMaxSize now c = Inr c' \<Longrightarrow> reachable (now # ts) c'"
| reach_setFileTypePriority:
    "reachable ts c \<Longrightarrow> reachable (now # ts) (setFileTypePriority extension priority now c)"

text \<open>
  \<open>public_step c c'\<close>: one public operation of the engine or of a handle takes the
  engine state \<open>c\<close> to \<open>c'\<close>. These are the operations of \<open>reachable\<close>, without the
  record of the clock readings.
\<close>

inductive public_step :: "ContentAwareCache \<Rightarrow> ContentAwareCache \<Rightarrow> bool" where
  step_openFile: "openFile d path m now c = Inr (file, c') \<Longrightarrow> public_step c c'"
| step_write:
    "entry h < next_ref c \<Longrightarrow>
     CacheFile_write h buffer sz count now c = Inr (n, h', c') \<Longrightarrow> public_step c c'"
| step_handle_flush:
    "entry h < next_ref c \<Longrightarrow> CacheFile_flush d h c = (res, h', c') \<Longrightarrow> public_step c c'"
| step_closeFile:
    "entry h < next_ref c \<Longrightarrow> closeFile d (Some h) now c = (ok, c') \<Longrightarrow> public_step c c'"
| step_flush: "public_step c (flush d c)"
| step_resizeCache: "resizeCache newMaxSize now c = Inr c' \<Longrightarrow> public_step c c'"
| step_setFileTypePriority: "public_step c (setFileTypePriority extension priority now c)"

text \<open>Every priority of the table lies in \<open>[0, 1]\<close>.\<close>

definition priorities_ok :: "(string \<Rightarrow> real option) \<Rightarrow> bool" where
  "priorities_ok pr = (\<forall>k p. pr k = Some p \<longrightarrow> 0 \<le> p \<and> p \<le> 1)"

text \<open>Every path of the LRU index occurs once in it and is a key of the entry map.\<close>

definition lru_ok :: "ContentAwareCache \<Rightarrow> bool" where
  "lru_ok c = (distinct (lruList c) \<and> set (lruList c) \<subseteq> fst ` set (cacheMap c))"

text \<open>The clock readings, latest first, never go back.\<close>

definition clock_monotone :: "time_point list \<Rightarrow> bool" where
  "clock_monotone ts = sorted_wrt (\<lambda>later earlier. earlier \<le> later) ts"

definition cell_ok :: "time_point list \<Rightarrow> CacheEntry \<Rightarrow> bool" where
  "cell_ok ts e =
     (fileSize (metadata e) \<le> length (data e)
      \<and> lastAccessed (stats e) \<in> set ts
      \<and> (clock_monotone ts \<longrightarrow> 0 \<le> priorityScore e \<and> priorityScore e \<le> 1))"

definition engine_inv :: "time_point list \<Rightarrow> ContentAwareCache \<Rightarrow> bool" where
  "engine_inv ts c =
     (priorities_ok (fileTypePriorities c)
      \<and> lru_ok c
      \<and> (\<forall>kv \<in> set (cacheMap c). snd kv < next_ref c)
      \<and> (\<forall>r. r < next_ref c \<longrightarrow> cell_ok ts (heap c r)))"

section \<open>Observations and example inputs\<close>

text \<open>The sum of the buffer lengths of the resident entries.\<close>

definition resident_bytes :: "ContentAwareCache \<Rightarrow> nat" where
  "resident_bytes c = sum_list (map (\<lambda>kv. length (data (heap c (snd kv)))) (cacheMap c))"

text \<open>
  The position a seek asks for, as an integer: the offset counted from the beginning, from
  the cursor or from the end of the buffer.
\<close>

definition seek_target :: "CacheFile \<Rightarrow> int \<Rightarrow> int \<Rightarrow> ContentAwareCache \<Rightarrow> int" where
  "seek_target h offset origin c =
     (if origin = SEEK_SET then offset
      else if origin = SEEK_CUR then int (position h) + offset
      else int (length (data (heap c (entry h)))) + offset)"

text \<open>
  The value that the statements of \<open>CacheFile::write\<close> on \<open>position\<close> (the snap to the
  end for an appending handle, then \<open>position += bytesToWrite\<close>) give the cursor of a
  handle that may write.
\<close>

definition CacheFile_write_cursor :: "CacheFile \<Rightarrow> nat \<Rightarrow> nat \<Rightarrow> ContentAwareCache \<Rightarrow> nat" where
  "CacheFile_write_cursor h sz count c =
     (let bytesToWrite = size_t (sz * count);
          pos = (if CHR ''a'' \<in> set (mode h) \<and> position h \<noteq> length (data (heap c (entry h)))
                 then length (data (heap c (entry h))) else position h)
      in size_t (pos + bytesToWrite))"

text \<open>An entry whose last access lies ten hours after clock reading 0.\<close>

definition future_entry :: CacheEntry where
  "future_entry =
     CacheEntry_init \<lparr>filePath = ''a.txt'', fileType = ''.txt'', fileSize = 5, lastModified = 0\<rparr>
       (36000 * ticks_per_second)"

text \<open>A read-write handle over entry 0 with its cursor at offset 2.\<close>

definition mid_handle :: CacheFile where
  "mid_handle = (CacheFile_init 0 ''rw'')\<lparr>position := 2\<rparr>"

text \<open>A filesystem where every path is a readable five-byte text file.\<close>

definition hello_disk :: Disk where
  "hello_disk =
     \<lparr>fs_exists = (\<lambda>p. True), fs_extension = (\<lambda>p. ''.txt''),
      fs_probe = (\<lambda>p. Some (5, 0)), fs_read = (\<lambda>p. Some (''hello'', True)),
      fs_write = (\<lambda>p. True)\<rparr>"

text \<open>A filesystem with no file at all; files can be created.\<close>

definition missing_disk :: Disk where
  "missing_disk =
     \<lparr>fs_exists = (\<lambda>p. False), fs_extension = (\<lambda>p. ''.txt''),
      fs_probe = (\<lambda>p. None), fs_read = (\<lambda>p. None), fs_write = (\<lambda>p. True)\<rparr>"

text \<open>A filesystem where every path is an existing file of length 0.\<close>

definition empty_file_disk :: Disk where
  "empty_file_disk =
     \<lparr>fs_exists = (\<lambda>p. True), fs_extension = (\<lambda>p. ''.txt''),
      fs_probe = (\<lambda>p. Some (0, 0)), fs_read = (\<lambda>p. Some ([], True)),
      fs_write = (\<lambda>p. True)\<rparr>"


definition tied_entry :: "string \<Rightarrow> CacheEntry" where
  "tied_entry path =
     (CacheEntry_init \<lparr>filePath = path, fileType = ''.txt'', fileSize = 5, lastModified = 0\<rparr> 0)
       \<lparr>data := ''hello'', priorityScore := 0.64\<rparr>"

definition tied_cache :: "(string \<times> ref) list \<Rightarrow> string list \<Rightarrow> ContentAwareCache" where
  "tied_cache order lru =
     (ContentAwareCache_init 100)
       \<lparr>currentCacheSize := 10, cacheMap := order, lruList := lru,
        cacheMisses := 2, diskReads := 2,
        heap := (heap (ContentAwareCache_init 100))
                  (0 := tied_entry ''a.txt'', 1 := tied_entry ''b.txt''),
        next_ref := 2\<rparr>"

section \<open>Unfolding the operations on example inputs\<close>

lemmas eval_defs = openFile_def getFileMetadata_def missing_disk_def ContentAwareCache_init_def
  CacheEntry_init_def AccessStats_init_def CacheFile_init_def updateLRU_def CacheFile_write_def
  grow_entry_def makeRoomInCache_def updateAllScores_def makeRoomInCache_loop.simps
  findEntryForEviction_def evictFile_def getMemoryUsage_def size_t_def size_t_sub_def resize_def
  rescored_def calculatePriorityScore_def default_priorities_def duration_cast_seconds_def
  FLT_MAX_def Let_def resident_bytes_def

lemmas trace_defs = eval_defs hello_disk_def loadFileIntoCache_def

section \<open>Handle read\<close>

text \<open>
  C10. \<open>CacheFile::read\<close> returns \<open>bytesToCopy / size\<close> with no guard on \<open>size\<close>: the
  call ends in a division by zero exactly when the handle has read permission and
  \<open>size\<close> is 0. With \<open>size > 0\<close> the division is defined.
\<close>

theorem C10_read_divides_by_size:
  "(CacheFile_read h sz count c = Inl DivisionByZero) = (CHR ''r'' \<in> set (mode h) \<and> sz = 0)"
  by (simp add: CacheFile_read_def Let_def size_t_def)

theorem C10_read_divides_by_size_witness:
  "CacheFile_read (CacheFile_init 0 ''r'') 0 4 (tied_cache [(''a.txt'', 0)] [''a.txt''])
     = Inl DivisionByZero"
  using C10_read_divides_by_size
          [of "CacheFile_init 0 ''r''" 0 4 "tied_cache [(''a.txt'', 0)] [''a.txt'']"]
  by (simp add: CacheFile_init_def)

section \<open>Counters\<close>

lemma counters_evictFile: "counters (evictFile path c) = counters c"
  by (simp add: counters_def evictFile_def split: option.splits)

lemma counters_updateAllScores: "counters (updateAllScores now c) = counters c"
  by (simp add: counters_def updateAllScores_def)

lemma counters_makeRoomInCache_loop:
  "makeRoomInCache_loop requiredSize c = Inr c' \<Longrightarrow> counters c' = counters c"
proof (induction requiredSize c rule: makeRoomInCache_loop.induct)
  case (1 requiredSize c)
  show ?case
  proof (cases "size_t (currentCacheSize c + requiredSize) > maxCacheSize c \<and> cacheMap c \<noteq> []
                \<and> findEntryForEviction c \<noteq> []")
    case True
    with "1.prems" have live: "map_of (cacheMap c) (findEntryForEviction c) \<noteq> None"
      and step: "makeRoomInCache_loop requiredSize (evictFile (findEntryForEviction c) c) = Inr c'"
      by (auto simp: makeRoomInCache_loop.simps [of requiredSize c] split: if_splits)
    from True live step have "counters c' = counters (evictFile (findEntryForEviction c) c)"
      by (intro "1.IH") auto
    then show ?thesis by (simp add: counters_evictFile)
  next
    case False
    with "1.prems" have "c' = c"
      by (auto simp: makeRoomInCache_loop.simps [of requiredSize c] split: if_splits)
    then show ?thesis by simp
  qed
qed

lemma counters_makeRoomInCache:
  "makeRoomInCache requiredSize now c = Inr c' \<Longrightarrow> counters c' = counters c"
  by (auto simp: makeRoomInCache_def counters_updateAllScores
           dest!: counters_makeRoomInCache_loop split: if_splits sum.splits)
     (simp_all add: counters_def)

lemma counters_loadFileIntoCache_fail:
  "loadFileIntoCache d path now c = Inr (None, c') \<Longrightarrow> counters c' = counters c"
  by (auto simp: loadFileIntoCache_def Let_def dest: counters_makeRoomInCache
           split: if_splits sum.splits option.splits prod.splits)

text \<open>
  C6, as the code has it. An \<open>openFile\<close> that returns \<open>nullptr\<close> (the file to read does
  not exist, or the load failed) has counted one miss: \<open>cacheMisses\<close> is incremented
  before either check. The hit, disk-read and disk-write counters are unchanged.
\<close>

theorem C6_failed_open_counts_one_miss:
  assumes "openFile d path m now c = Inr (None, c')"
  shows "cacheHits c' = cacheHits c \<and> cacheMisses c' = cacheMisses c + 1
         \<and> diskReads c' = diskReads c \<and> diskWrites c' = diskWrites c"
proof -
  have "counters c' = counters (c\<lparr>cacheMisses := cacheMisses c + 1\<rparr>)"
    using assms
    by (auto simp: openFile_def Let_def dest: counters_loadFileIntoCache_fail
             split: option.splits if_splits sum.splits prod.splits)
  then show ?thesis by (simp add: counters_def)
qed

lemma openFile_missing_file:
  "openFile missing_disk ''x.txt'' ''r'' 0 (ContentAwareCache_init 100)
     = Inr (None, (ContentAwareCache_init 100)\<lparr>cacheMisses := 1\<rparr>)"
  by (simp add: openFile_def missing_disk_def ContentAwareCache_init_def)

lemma openFile_failed_load:
  "openFile empty_file_disk ''x.txt'' ''r'' 0 (ContentAwareCache_init 100)
     = Inr (None, (ContentAwareCache_init 100)\<lparr>cacheMisses := 1\<rparr>)"
  by (simp add: openFile_def loadFileIntoCache_def getFileMetadata_def empty_file_disk_def
        ContentAwareCache_init_def)

theorem C6_failed_open_counts_one_miss_witness:
  "openFile missing_disk ''x.txt'' ''r'' 0 (ContentAwareCache_init 100)
     = Inr (None, (ContentAwareCache_init 100)\<lparr>cacheMisses := 1\<rparr>)
   \<and> cacheHits ((ContentAwareCache_init 100)\<lparr>cacheMisses := 1\<rparr>) = cacheHits (ContentAwareCache_init 100)
   \<and> cacheMisses ((ContentAwareCache_init 100)\<lparr>cacheMisses := 1\<rparr>) = cacheMisses (ContentAwareCache_init 100) + 1
   \<and> diskReads ((ContentAwareCache_init 100)\<lparr>cacheMisses := 1\<rparr>) = diskReads (ContentAwareCache_init 100)
   \<and> diskWrites ((ContentAwareCache_init 100)\<lparr>cacheMisses := 1\<rparr>) = diskWrites (ContentAwareCache_init 100)"
  using C6_failed_open_counts_one_miss [OF openFile_missing_file] openFile_missing_file
  by simp

text \<open>
  C6, as the claim states it, fails: both failing opens below (a missing file opened for
  reading, and a file whose load fails) leave \<open>cacheMisses\<close> at 1 where it was 0.
\<close>

theorem C6_failed_open_updates_misses:
  "openFile missing_disk ''x.txt'' ''r'' 0 (ContentAwareCache_init 100)
     = Inr (None, (ContentAwareCache_init 100)\<lparr>cacheMisses := 1\<rparr>)
   \<and> openFile empty_file_disk ''x.txt'' ''r'' 0 (ContentAwareCache_init 100)
     = Inr (None, (ContentAwareCache_init 100)\<lparr>cacheMisses := 1\<rparr>)
   \<and> cacheMisses ((ContentAwareCache_init 100)\<lparr>cacheMisses := 1\<rparr>)
       \<noteq> cacheMisses (ContentAwareCache_init 100)"
  by (simp add: openFile_missing_file openFile_failed_load) (simp add: ContentAwareCache_init_def)

section \<open>Engine flush\<close>

lemma flush_loop_count:
  "flush_loop d hp xs w
     = w + length (filter (\<lambda>kv. fs_write d (filePath (metadata (hp (snd kv))))) xs)"
  by (induction xs arbitrary: w) auto

text \<open>
  C8. Two engine flushes in a row, every disk write succeeding: \<open>diskWrites\<close> grows by
  twice the number of entries and nothing else of the state changes, so the entry map and
  every buffer are as before.
\<close>

theorem C8_flush_twice:
  assumes "\<forall>kv \<in> set (cacheMap c). fs_write d1 (filePath (metadata (heap c (snd kv))))"
      and "\<forall>kv \<in> set (cacheMap c). fs_write d2 (filePath (metadata (heap c (snd kv))))"
  shows "flush d2 (flush d1 c) = c\<lparr>diskWrites := diskWrites c + 2 * length (cacheMap c)\<rparr>
         \<and> diskWrites (flush d2 (flush d1 c)) = diskWrites c + 2 * length (cacheMap c)
         \<and> cacheMap (flush d2 (flush d1 c)) = cacheMap c
         \<and> heap (flush d2 (flush d1 c)) = heap c"
  using assms by (simp add: flush_def flush_loop_count)

theorem C8_flush_twice_witness:
  "diskWrites (flush hello_disk (flush hello_disk
       (tied_cache [(''a.txt'', 0), (''b.txt'', 1)] [''b.txt'', ''a.txt''])))
     = diskWrites (tied_cache [(''a.txt'', 0), (''b.txt'', 1)] [''b.txt'', ''a.txt'']) + 4
   \<and> data (heap (flush hello_disk (flush hello_disk
       (tied_cache [(''a.txt'', 0), (''b.txt'', 1)] [''b.txt'', ''a.txt'']))) 0) = ''hello''"
  using C8_flush_twice [of "tied_cache [(''a.txt'', 0), (''b.txt'', 1)] [''b.txt'', ''a.txt'']"
                          hello_disk hello_disk]
  by (simp add: hello_disk_def tied_cache_def tied_entry_def)

section \<open>Type priorities\<close>

lemma rescored_simps:
  "metadata (rescored pr now e) = metadata e"
  "stats (rescored pr now e) = stats e"
  "data (rescored pr now e) = data e"
  "priorityScore (rescored pr now e) = calculatePriorityScore pr e now"
  by (simp_all add: rescored_def)

lemma rescored_idem: "rescored pr now (rescored pr now e) = rescored pr now e"
  by (simp add: rescored_def calculatePriorityScore_def)

lemma setFileTypePriority_loop_at:
  "setFileTypePriority_loop ext pr now xs hp r
     = (if r \<in> snd ` set xs \<and> fileType (metadata (hp r)) = ext
        then rescored pr now (hp r) else hp r)"
proof (induction xs arbitrary: hp)
  case Nil
  then show ?case by simp
next
  case (Cons kv xs)
  obtain path r0 where kv: "kv = (path, r0)" by (cases kv)
  show ?case
    unfolding kv
    by (auto simp: Cons.IH rescored_simps rescored_idem)
qed

text \<open>
  C5, as the code has it. \<open>setFileTypePriority\<close> stores the priority, clamped into
  \<open>[0, 1]\<close>, under the extension with a dot put in front when it is not empty and does
  not start with one; the letters keep their case. No other key of the table changes. The
  score is recomputed, with the new table, for exactly the resident entries whose
  \<open>fileType\<close> equals that key; every other entry is untouched.
\<close>

theorem C5_setFileTypePriority:
  "fileTypePriorities (setFileTypePriority extension priority now c) (with_leading_dot extension)
     = Some (max 0 (min 1 priority))
   \<and> 0 \<le> max 0 (min 1 priority) \<and> max 0 (min 1 priority) \<le> 1
   \<and> (\<forall>k. k \<noteq> with_leading_dot extension \<longrightarrow>
         fileTypePriorities (setFileTypePriority extension priority now c) k = fileTypePriorities c k)
   \<and> (\<forall>r. heap (setFileTypePriority extension priority now c) r
         = (if r \<in> snd ` set (cacheMap c) \<and> fileType (metadata (heap c r)) = with_leading_dot extension
            then (heap c r)\<lparr>priorityScore :=
                   calculatePriorityScore (fileTypePriorities (setFileTypePriority extension priority now c))
                     (heap c r) now\<rparr>
            else heap c r))
   \<and> with_leading_dot extension
       = (if extension \<noteq> [] \<and> hd extension \<noteq> CHR ''.'' then CHR ''.'' # extension else extension)"
  by (simp add: setFileTypePriority_def Let_def setFileTypePriority_loop_at rescored_def
        with_leading_dot_def)

theorem C5_setFileTypePriority_witness:
  "fileTypePriorities
     (setFileTypePriority ''txt'' 2 0 (tied_cache [(''b.txt'', 1), (''a.txt'', 0)] [''b.txt'', ''a.txt'']))
     ''.txt'' = Some 1
   \<and> priorityScore (heap
        (setFileTypePriority ''txt'' 2 0 (tied_cache [(''b.txt'', 1), (''a.txt'', 0)] [''b.txt'', ''a.txt'']))
        0) = 0.73"
  using C5_setFileTypePriority
          [of "''txt''" 2 0 "tied_cache [(''b.txt'', 1), (''a.txt'', 0)] [''b.txt'', ''a.txt'']"]
  by (simp add: with_leading_dot_def tied_cache_def tied_entry_def calculatePriorityScore_def
        CacheEntry_init_def AccessStats_init_def duration_cast_seconds_def)

text \<open>
  C5, as the claim states it, fails on the lowercase part: a priority set for \<open>TXT\<close> is
  stored under \<open>.TXT\<close>, and the entry of the table for \<open>.txt\<close> keeps its default.
\<close>

theorem C5_extension_case_is_kept:
  "fileTypePriorities (setFileTypePriority ''TXT'' 0.2 0 (ContentAwareCache_init 100)) ''.TXT''
     = Some 0.2
   \<and> fileTypePriorities (setFileTypePriority ''TXT'' 0.2 0 (ContentAwareCache_init 100)) ''.txt''
     = Some 0.7"
  by (simp add: setFileTypePriority_def with_leading_dot_def ContentAwareCache_init_def
        default_priorities_def)

section \<open>Opening for writing\<close>

text \<open>
  C4. \<open>a.txt\<close>, five bytes on disk, is opened for reading and so becomes resident; it is
  then opened with mode \<open>w\<close>. The second open is a hit: it returns a handle over the
  same entry, whose buffer still holds the five bytes. The branch that creates an empty
  entry is reached only on a miss: the same open with mode \<open>w\<close> on an engine where the
  path is not resident yields an empty buffer, although the file on disk has five bytes.
\<close>

theorem C4_open_w_keeps_resident_contents:
  "(case openFile hello_disk ''a.txt'' ''r'' 0 (ContentAwareCache_init 100) of
      Inr (Some h1, c1) \<Rightarrow>
        (case openFile hello_disk ''a.txt'' ''w'' 0 c1 of
           Inr (Some h2, c2) \<Rightarrow>
             entry h2 = entry h1 \<and> cacheHits c2 = 1
             \<and> map_of (cacheMap c2) ''a.txt'' = Some (entry h2)
             \<and> data (heap c2 (entry h2)) = ''hello''
         | _ \<Rightarrow> False)
    | _ \<Rightarrow> False)
   \<and> (case openFile hello_disk ''a.txt'' ''w'' 0 (ContentAwareCache_init 100) of
      Inr (Some h, c') \<Rightarrow>
        map_of (cacheMap c') ''a.txt'' = Some (entry h) \<and> data (heap c' (entry h)) = []
    | _ \<Rightarrow> False)"
  by (simp add: trace_defs)

section \<open>Size accounting\<close>

text \<open>
  C2. Two runs after which \<open>currentCacheSize\<close> differs from the sum of the buffer
  lengths of the resident entries.
  First run: an engine of capacity 10; \<open>a.txt\<close> is opened with mode \<open>w\<close> (an empty
  resident entry, accounting exact) and 20 bytes are written through the handle. To make
  room \<open>makeRoomInCache\<close> evicts the only entry, which is the one being written; the write
  then grows that entry, now outside the map, and adds 20 to \<open>currentCacheSize\<close>. No entry
  is resident and \<open>currentCacheSize\<close> is 20.
  Second run: an engine of capacity 8; the five-byte \<open>a.txt\<close> is opened for appending,
  then the five-byte \<open>b.txt\<close> is opened for reading, which evicts \<open>a.txt\<close>; one byte is
  appended through the handle of \<open>a.txt\<close>. Only \<open>b.txt\<close> is resident, with five bytes, and
  \<open>currentCacheSize\<close> is 6.
\<close>

theorem C2_write_to_evicted_entry:
  "(case openFile missing_disk ''a.txt'' ''w'' 0 (ContentAwareCache_init 10) of
      Inr (Some h, c1) \<Rightarrow>
        resident_bytes c1 = currentCacheSize c1 \<and>
        (case CacheFile_write h (replicate 20 (CHR ''x'')) 1 20 0 c1 of
           Inr (n, h', c2) \<Rightarrow>
             n = 20 \<and> cacheMap c2 = [] \<and> resident_bytes c2 = 0 \<and> currentCacheSize c2 = 20
         | Inl f \<Rightarrow> False)
    | _ \<Rightarrow> False)
   \<and> (case openFile hello_disk ''a.txt'' ''a'' 0 (ContentAwareCache_init 8) of
      Inr (Some ha, c1) \<Rightarrow>
        resident_bytes c1 = currentCacheSize c1 \<and>
        (case openFile hello_disk ''b.txt'' ''r'' 0 c1 of
           Inr (Some hb, c2) \<Rightarrow>
             resident_bytes c2 = currentCacheSize c2 \<and>
             (case CacheFile_write ha ''x'' 1 1 0 c2 of
                Inr (n, h', c3) \<Rightarrow>
                  n = 1 \<and> map (\<lambda>kv. fst kv) (cacheMap c3) = [''b.txt'']
                  \<and> resident_bytes c3 = 5 \<and> currentCacheSize c3 = 6
              | Inl f \<Rightarrow> False)
         | _ \<Rightarrow> False)
    | _ \<Rightarrow> False)"
  by (simp add: trace_defs)

section \<open>Recorded file size\<close>

text \<open>
  C3, as the claim states it, fails: \<open>a.txt\<close> is opened with mode \<open>w\<close> and three bytes
  are written. The entry is resident, its buffer holds three bytes and its
  \<open>metadata.fileSize\<close> is still 0.
\<close>

theorem C3_write_leaves_fileSize:
  "(case openFile missing_disk ''a.txt'' ''w'' 0 (ContentAwareCache_init 100) of
      Inr (Some h, c1) \<Rightarrow>
        (case CacheFile_write h ''abc'' 1 3 0 c1 of
           Inr (n, h', c2) \<Rightarrow>
             map_of (cacheMap c2) ''a.txt'' = Some (entry h)
             \<and> fileSize (metadata (heap c2 (entry h))) = 0
             \<and> length (data (heap c2 (entry h))) = 3
         | Inl f \<Rightarrow> False)
    | _ \<Rightarrow> False)"
  by (simp add: eval_defs)

section \<open>Score range\<close>

lemma duration_cast_seconds_nonneg: "0 \<le> d \<Longrightarrow> 0 \<le> duration_cast_seconds d"
  by (simp add: duration_cast_seconds_def ticks_per_second_def)

lemma calculatePriorityScore_bounds:
  assumes pr: "priorities_ok pr" and clock: "lastAccessed (stats e) \<le> now"
  shows "0 \<le> calculatePriorityScore pr e now \<and> calculatePriorityScore pr e now \<le> 1"
proof -
  define typePriority where
    "typePriority = (case pr (fileType (metadata e)) of None \<Rightarrow> 0.5 | Some p \<Rightarrow> p)"
  define sizeScore where
    "sizeScore = (if fileSize (metadata e) > 1024
                  then min 1 (10240 / real (fileSize (metadata e))) else 1)"
  define accessScore where
    "accessScore = 0.1 + min 0.9 (log 2 (1 + real (accessCount (stats e))) / 10)"
  define recencyScore where
    "recencyScore = exp (- real_of_int (duration_cast_seconds (now - lastAccessed (stats e))) / 3600)"
  have t: "0 \<le> typePriority \<and> typePriority \<le> 1"
    using pr by (auto simp: typePriority_def priorities_ok_def split: option.splits)
  have s: "0 \<le> sizeScore \<and> sizeScore \<le> 1"
    by (simp add: sizeScore_def)
  have "0 \<le> log 2 (1 + real (accessCount (stats e)))"
    by simp
  then have a: "0 \<le> accessScore \<and> accessScore \<le> 1"
    by (simp add: accessScore_def min_def)
  have "0 \<le> duration_cast_seconds (now - lastAccessed (stats e))"
    using clock by (intro duration_cast_seconds_nonneg) simp
  then have r: "0 \<le> recencyScore \<and> recencyScore \<le> 1"
    by (simp add: recencyScore_def)
  have "calculatePriorityScore pr e now
          = typePriority * 0.3 + sizeScore * 0.2 + accessScore * 0.3 + recencyScore * 0.2"
    by (simp add: calculatePriorityScore_def typePriority_def sizeScore_def accessScore_def
          recencyScore_def)
  with t s a r show ?thesis by simp
qed

text \<open>
  C7. The scorer bounds every factor but the recency term: \<open>exp (- duration / 3600)\<close> is
  above 1 when \<open>duration\<close> is negative, which it is when the wall clock has been set back
  past the entry's last access. For an entry last accessed ten hours after the current
  reading the recency term is \<open>0.2 * exp 10\<close> and the score exceeds 1. So does the stored
  score of a resident entry: \<open>a.txt\<close> is loaded at a clock reading of ten hours (score
  0.64), then the type priority of \<open>txt\<close> is set at clock reading 0, which recomputes the
  score of the entry.
\<close>

theorem C7_score_above_one_after_clock_step:
  "1 < calculatePriorityScore (fileTypePriorities (ContentAwareCache_init 100)) future_entry 0
   \<and> (case openFile hello_disk ''a.txt'' ''r'' (36000 * ticks_per_second) (ContentAwareCache_init 100) of
        Inr (Some h, c1) \<Rightarrow>
          priorityScore (heap c1 (entry h)) = 0.64
          \<and> map_of (cacheMap (setFileTypePriority ''txt'' 0.7 0 c1)) ''a.txt'' = Some (entry h)
          \<and> 1 < priorityScore (heap (setFileTypePriority ''txt'' 0.7 0 c1) (entry h))
      | _ \<Rightarrow> False)"
proof -
  have e: "1 + 10 \<le> exp (10::real)"
    by (rule exp_ge_add_one_self)
  then have "1 < calculatePriorityScore (fileTypePriorities (ContentAwareCache_init 100)) future_entry 0"
    by (simp add: calculatePriorityScore_def future_entry_def CacheEntry_init_def
          AccessStats_init_def ContentAwareCache_init_def default_priorities_def
          duration_cast_seconds_def ticks_per_second_def)
  moreover from e
  have "(case openFile hello_disk ''a.txt'' ''r'' (36000 * ticks_per_second) (ContentAwareCache_init 100) of
        Inr (Some h, c1) \<Rightarrow>
          priorityScore (heap c1 (entry h)) = 0.64
          \<and> map_of (cacheMap (setFileTypePriority ''txt'' 0.7 0 c1)) ''a.txt'' = Some (entry h)
          \<and> 1 < priorityScore (heap (setFileTypePriority ''txt'' 0.7 0 c1) (entry h))
      | _ \<Rightarrow> False)"
    by (simp add: trace_defs setFileTypePriority_def with_leading_dot_def ticks_per_second_def)
  ultimately show ?thesis by blast
qed

section \<open>Handle cursor\<close>

lemma size_t_le: "size_t n \<le> n"
  by (simp add: size_t_def)

lemma size_t_id: "n < 2 ^ 64 \<Longrightarrow> size_t n = n"
  by (simp add: size_t_def)

lemma read_cursor:
  assumes "position h \<le> length (data (heap c (entry h)))"
      and "length (data (heap c (entry h))) < 2 ^ 63"
      and "CacheFile_read h sz count c = Inr (n, bs, h')"
  shows "entry h' = entry h \<and> position h \<le> position h'
         \<and> position h' \<le> length (data (heap c (entry h)))"
proof -
  have "b \<le> length (data (heap c (entry h))) - position h
          \<Longrightarrow> size_t (position h + b) = position h + b" for b
    using assms(1,2) by (intro size_t_id) simp
  moreover have "size_t (length (data (heap c (entry h)))) = length (data (heap c (entry h)))"
    using assms(2) by (intro size_t_id) simp
  ultimately show ?thesis
    using assms by (auto simp: CacheFile_read_def Let_def size_t_sub_def min_def split: if_splits)
qed

lemma write_cursor:
  assumes "position h \<le> length (data (heap c (entry h)))"
      and "CacheFile_write h buffer sz count now c = Inr (n, h', c')"
  shows "entry h' = entry h \<and> position h' \<le> length (data (heap c' (entry h)))"
  using assms size_t_le [of "position h + size_t (sz * count)"]
    size_t_le [of "length (data (heap c (entry h))) + size_t (sz * count)"]
  by (auto simp: CacheFile_write_def Let_def split: if_splits sum.splits)

lemma seek_cursor:
  assumes "position h \<le> length (data (heap c (entry h)))"
      and "length (data (heap c (entry h))) < 2 ^ 63"
      and "- (2 ^ 63) \<le> offset" and "offset < 2 ^ 63"
      and "origin = SEEK_SET \<or> origin = SEEK_CUR \<or> origin = SEEK_END"
  shows "CacheFile_seek h offset origin c
           = (if seek_target h offset origin c < 0
                 \<or> seek_target h offset origin c > int (length (data (heap c (entry h))))
              then (-1, h) else (0, h\<lparr>position := nat (seek_target h offset origin c)\<rparr>))"
proof -
  let ?t = "seek_target h offset origin c"
  let ?n = "length (data (heap c (entry h)))"
  have range: "- (2 ^ 63) \<le> ?t" "?t < 2 ^ 64"
    using assms by (auto simp: seek_target_def)
  have new: "CacheFile_seek h offset origin c
               = (if nat (?t mod 2 ^ 64) > ?n then (-1, h)
                  else (0, h\<lparr>position := nat (?t mod 2 ^ 64)\<rparr>))"
    using assms(5)
    by (auto simp: CacheFile_seek_def seek_target_def Let_def SEEK_SET_def SEEK_CUR_def SEEK_END_def)
  show ?thesis
  proof (cases "?t < 0")
    case True
    have "?t mod 2 ^ 64 = (?t + 2 ^ 64) mod 2 ^ 64"
      by simp
    also have "\<dots> = ?t + 2 ^ 64"
      using range True by (intro mod_pos_pos_trivial) auto
    finally have "?t mod 2 ^ 64 = ?t + 2 ^ 64" .
    then have "nat (?t mod 2 ^ 64) > ?n"
      using range assms(2) by simp
    with True new show ?thesis by simp
  next
    case False
    then have "?t mod 2 ^ 64 = ?t"
      using range by simp
    with False new show ?thesis by auto
  qed
qed

lemma seek_cursor_any_origin:
  assumes "position h \<le> length (data (heap c (entry h)))"
  shows "position (snd (CacheFile_seek h offset origin c)) \<le> length (data (heap c (entry h)))"
  using assms by (simp add: CacheFile_seek_def Let_def)

section \<open>Making room: frame and termination\<close>

lemma updateAllScores_loop_at:
  "updateAllScores_loop pr now xs hp r
     = (if r \<in> snd ` set xs then rescored pr now (hp r) else hp r)"
proof (induction xs arbitrary: hp)
  case Nil
  then show ?case by simp
next
  case (Cons kv xs)
  obtain path r0 where kv: "kv = (path, r0)" by (cases kv)
  show ?case
    unfolding kv by (auto simp: Cons.IH rescored_idem)
qed

lemma makeRoomInCache_loop_invariant:
  assumes "makeRoomInCache_loop requiredSize c = Inr c'"
      and "P c"
      and "\<And>path c. P c \<Longrightarrow> map_of (cacheMap c) path \<noteq> None \<Longrightarrow> P (evictFile path c)"
  shows "P c'"
  using assms(1,2)
proof (induction requiredSize c rule: makeRoomInCache_loop.induct)
  case (1 requiredSize c)
  show ?case
  proof (cases "size_t (currentCacheSize c + requiredSize) > maxCacheSize c \<and> cacheMap c \<noteq> []
                \<and> findEntryForEviction c \<noteq> []")
    case True
    with "1.prems" have live: "map_of (cacheMap c) (findEntryForEviction c) \<noteq> None"
      and step: "makeRoomInCache_loop requiredSize (evictFile (findEntryForEviction c) c) = Inr c'"
      by (auto simp: makeRoomInCache_loop.simps [of requiredSize c] split: if_splits)
    from "1.prems"(2) live have "P (evictFile (findEntryForEviction c) c)"
      by (rule assms(3))
    with True live step show ?thesis
      by (intro "1.IH") auto
  next
    case False
    with "1.prems" have "c' = c"
      by (auto simp: makeRoomInCache_loop.simps [of requiredSize c] split: if_splits)
    with "1.prems" show ?thesis by simp
  qed
qed

lemma keys_after_erase:
  "fst ` set (filter (\<lambda>kv. fst kv \<noteq> path) xs) = fst ` set xs - {path}"
  by auto

lemma lru_ok_evictFile: "lru_ok c \<Longrightarrow> lru_ok (evictFile path c)"
  by (auto simp: lru_ok_def evictFile_def keys_after_erase split: option.splits)

lemma scan_lowest_key:
  "fst (scan_lowest hp xs (cand, low)) = cand \<or> fst (scan_lowest hp xs (cand, low)) \<in> fst ` set xs"
proof (induction xs arbitrary: cand low)
  case Nil
  then show ?case by simp
next
  case (Cons kv xs)
  obtain path r where kv: "kv = (path, r)" by (cases kv)
  show ?case
    using Cons.IH [of path "priorityScore (hp r)"] Cons.IH [of cand low]
    unfolding kv by auto
qed

lemma findEntryForEviction_is_key:
  assumes "lru_ok c" and "findEntryForEviction c \<noteq> []"
  shows "findEntryForEviction c \<in> fst ` set (cacheMap c)"
proof (cases "fst (scan_lowest (heap c) (cacheMap c) ([], FLT_MAX)) = []")
  case True
  with assms(2) have "lruList c \<noteq> []" and "findEntryForEviction c = last (lruList c)"
    by (auto simp: findEntryForEviction_def Let_def split: if_splits)
  with assms(1) show ?thesis
    using last_in_set [of "lruList c"] by (auto simp: lru_ok_def)
next
  case False
  with assms(2) have "findEntryForEviction c = fst (scan_lowest (heap c) (cacheMap c) ([], FLT_MAX))"
    by (auto simp: findEntryForEviction_def Let_def split: if_splits)
  with False scan_lowest_key [of "heap c" "cacheMap c" "[]" FLT_MAX] show ?thesis
    by auto
qed

lemma makeRoomInCache_loop_returns:
  "lru_ok c \<Longrightarrow> \<exists>c'. makeRoomInCache_loop requiredSize c = Inr c'"
proof (induction requiredSize c rule: makeRoomInCache_loop.induct)
  case (1 requiredSize c)
  show ?case
  proof (cases "size_t (currentCacheSize c + requiredSize) > maxCacheSize c \<and> cacheMap c \<noteq> []
                \<and> findEntryForEviction c \<noteq> []")
    case True
    with "1.prems" have "findEntryForEviction c \<in> fst ` set (cacheMap c)"
      by (intro findEntryForEviction_is_key) auto
    then have live: "map_of (cacheMap c) (findEntryForEviction c) \<noteq> None"
      by (simp add: map_of_eq_None_iff)
    from "1.prems" have "lru_ok (evictFile (findEntryForEviction c) c)"
      by (rule lru_ok_evictFile)
    with True live have "\<exists>c'. makeRoomInCache_loop requiredSize (evictFile (findEntryForEviction c) c) = Inr c'"
      by (intro "1.IH") auto
    with True live show ?thesis
      by (simp add: makeRoomInCache_loop.simps [of requiredSize c])
  next
    case False
    then show ?thesis
      by (auto simp: makeRoomInCache_loop.simps [of requiredSize c])
  qed
qed

lemma makeRoomInCache_loop_frame:
  assumes "makeRoomInCache_loop requiredSize c = Inr c'"
  shows "heap c' = heap c \<and> fileTypePriorities c' = fileTypePriorities c
         \<and> next_ref c' = next_ref c \<and> set (cacheMap c') \<subseteq> set (cacheMap c)"
  by (rule makeRoomInCache_loop_invariant [OF assms])
     (auto simp: evictFile_def split: option.splits)

lemma lru_ok_makeRoomInCache_loop:
  assumes "makeRoomInCache_loop requiredSize c = Inr c'" and "lru_ok c"
  shows "lru_ok c'"
  using assms by (rule makeRoomInCache_loop_invariant) (rule lru_ok_evictFile)

lemma lru_ok_updateAllScores: "lru_ok (updateAllScores now c) = lru_ok c"
  by (simp add: lru_ok_def updateAllScores_def)

lemma makeRoomInCache_frame:
  assumes "makeRoomInCache requiredSize now c = Inr c'"
  shows "fileTypePriorities c' = fileTypePriorities c \<and> next_ref c' = next_ref c
         \<and> set (cacheMap c') \<subseteq> set (cacheMap c)
         \<and> (\<forall>r. heap c' r = heap c r \<or> heap c' r = rescored (fileTypePriorities c) now (heap c r))"
proof (cases "size_t (currentCacheSize c + requiredSize) \<le> maxCacheSize c")
  case True
  with assms show ?thesis by (simp add: makeRoomInCache_def)
next
  case False
  with assms obtain c1 where loop: "makeRoomInCache_loop requiredSize (updateAllScores now c) = Inr c1"
    and c': "c' = c1 \<or> c' = c1\<lparr>maxCacheSize := size_t (currentCacheSize c1 + requiredSize)\<rparr>"
    by (auto simp: makeRoomInCache_def split: sum.splits if_splits)
  from makeRoomInCache_loop_frame [OF loop]
  have c1: "heap c1 = updateAllScores_loop (fileTypePriorities c) now (cacheMap c) (heap c)"
    "fileTypePriorities c1 = fileTypePriorities c" "next_ref c1 = next_ref c"
    "set (cacheMap c1) \<subseteq> set (cacheMap c)"
    by (simp_all add: updateAllScores_def)
  have hp: "\<forall>r. heap c1 r = heap c r \<or> heap c1 r = rescored (fileTypePriorities c) now (heap c r)"
    by (simp add: c1(1) updateAllScores_loop_at)
  from c' have same: "heap c' = heap c1" "fileTypePriorities c' = fileTypePriorities c1"
    "next_ref c' = next_ref c1" "cacheMap c' = cacheMap c1"
    by auto
  show ?thesis
    unfolding same using hp c1(2-4) by simp
qed

lemma lru_ok_makeRoomInCache:
  assumes "makeRoomInCache requiredSize now c = Inr c'" and "lru_ok c"
  shows "lru_ok c'"
proof (cases "size_t (currentCacheSize c + requiredSize) \<le> maxCacheSize c")
  case True
  with assms show ?thesis by (simp add: makeRoomInCache_def)
next
  case False
  with assms obtain c1 where loop: "makeRoomInCache_loop requiredSize (updateAllScores now c) = Inr c1"
    and c': "c' = c1 \<or> c' = c1\<lparr>maxCacheSize := size_t (currentCacheSize c1 + requiredSize)\<rparr>"
    by (auto simp: makeRoomInCache_def split: sum.splits if_splits)
  from loop assms(2) have "lru_ok c1"
    by (intro lru_ok_makeRoomInCache_loop [OF loop]) (simp add: lru_ok_updateAllScores)
  with c' show ?thesis by (auto simp: lru_ok_def)
qed

lemma makeRoomInCache_returns:
  "lru_ok c \<Longrightarrow> \<exists>c'. makeRoomInCache requiredSize now c = Inr c'"
  using makeRoomInCache_loop_returns [of "updateAllScores now c" requiredSize]
  by (auto simp: makeRoomInCache_def lru_ok_updateAllScores)

section \<open>Eviction selector\<close>

text \<open>
  What the selector does: on an empty entry map it returns the empty path; an entry whose
  score is strictly below every other entry's (and below \<open>FLT_MAX\<close>, with a non-empty
  path) is returned; and as soon as some score is below \<open>FLT_MAX\<close> and no key is empty
  the result does not depend on the LRU index.
\<close>

lemma scan_lowest_no_lower:
  "\<forall>kv \<in> set xs. \<not> priorityScore (hp (snd kv)) < low \<Longrightarrow>
   scan_lowest hp xs (cand, low) = (cand, low)"
  by (induction xs) auto

lemma scan_lowest_strict_minimum:
  assumes "(path, r) \<in> set xs" and "priorityScore (hp r) < low"
      and "\<forall>kv \<in> set xs. kv \<noteq> (path, r) \<longrightarrow> priorityScore (hp r) < priorityScore (hp (snd kv))"
  shows "scan_lowest hp xs (cand, low) = (path, priorityScore (hp r))"
  using assms
proof (induction xs arbitrary: cand low)
  case Nil
  then show ?case by simp
next
  case (Cons kv xs)
  obtain p0 r0 where kv: "kv = (p0, r0)" by (cases kv)
  show ?case
  proof (cases "kv = (path, r)")
    case True
    have "\<forall>kv' \<in> set xs. \<not> priorityScore (hp (snd kv')) < priorityScore (hp r)"
    proof
      fix kv' assume "kv' \<in> set xs"
      with Cons.prems(3) show "\<not> priorityScore (hp (snd kv')) < priorityScore (hp r)"
        by (cases "kv' = (path, r)") auto
    qed
    then have "scan_lowest hp xs (path, priorityScore (hp r)) = (path, priorityScore (hp r))"
      by (rule scan_lowest_no_lower)
    with True Cons.prems(2) show ?thesis by simp
  next
    case False
    with Cons.prems have mem: "(path, r) \<in> set xs"
      and less: "priorityScore (hp r) < priorityScore (hp r0)"
      and rest: "\<forall>kv \<in> set xs. kv \<noteq> (path, r) \<longrightarrow> priorityScore (hp r) < priorityScore (hp (snd kv))"
      by (auto simp: kv)
    show ?thesis
    proof (cases "priorityScore (hp r0) < low")
      case True
      with Cons.IH [OF mem less rest] show ?thesis by (simp add: kv)
    next
      case False
      with Cons.IH [OF mem Cons.prems(2) rest] show ?thesis by (simp add: kv)
    qed
  qed
qed

lemma findEntryForEviction_strict_minimum:
  assumes "(path, r) \<in> set (cacheMap c)" and "path \<noteq> []"
      and "priorityScore (heap c r) < FLT_MAX"
      and "\<forall>kv \<in> set (cacheMap c). kv \<noteq> (path, r) \<longrightarrow>
             priorityScore (heap c r) < priorityScore (heap c (snd kv))"
  shows "findEntryForEviction c = path"
proof -
  from assms(1) have "cacheMap c \<noteq> []" by auto
  with scan_lowest_strict_minimum [OF assms(1,3,4), of "[]"] assms(2) show ?thesis
    by (simp add: findEntryForEviction_def)
qed

lemma findEntryForEviction_empty: "cacheMap c = [] \<Longrightarrow> findEntryForEviction c = []"
  by (simp add: findEntryForEviction_def)

lemma findEntryForEviction_ignores_lru:
  assumes "\<exists>kv \<in> set (cacheMap c). priorityScore (heap c (snd kv)) < FLT_MAX"
      and "[] \<notin> fst ` set (cacheMap c)"
  shows "findEntryForEviction (c\<lparr>lruList := lru\<rparr>) = findEntryForEviction c"
proof -
  have "fst (scan_lowest hp xs (cand, low)) \<in> fst ` set xs"
    if "\<exists>kv \<in> set xs. priorityScore (hp (snd kv)) < low" for hp xs cand and low :: real
    using that
  proof (induction xs arbitrary: cand low)
    case Nil
    then show ?case by simp
  next
    case (Cons kv xs)
    obtain p0 r0 where kv: "kv = (p0, r0)" by (cases kv)
    show ?case
    proof (cases "priorityScore (hp r0) < low")
      case True
      with scan_lowest_key [of hp xs p0 "priorityScore (hp r0)"] show ?thesis
        by (auto simp: kv)
    next
      case False
      with Cons.prems have "\<exists>kv \<in> set xs. priorityScore (hp (snd kv)) < low"
        by (auto simp: kv)
      from Cons.IH [OF this, of cand] False show ?thesis
        by (simp add: kv)
    qed
  qed
  from this [OF assms(1), of "[]"]
  have "fst (scan_lowest (heap c) (cacheMap c) ([], FLT_MAX)) \<in> fst ` set (cacheMap c)" .
  with assms(2) have "fst (scan_lowest (heap c) (cacheMap c) ([], FLT_MAX)) \<noteq> []"
    by metis
  then show ?thesis
    by (simp add: findEntryForEviction_def)
qed

text \<open>
  C1. Two five-byte text files are loaded at the same clock reading, \<open>b.txt\<close> and then
  \<open>a.txt\<close>: their scores are equal, the tail of the LRU index is \<open>b.txt\<close>, and the
  selector returns \<open>a.txt\<close>. The scan takes the first entry of the iteration order and,
  having a candidate, never reaches the LRU fallback. The same holds whichever way the
  container iterates: over the two tied entries in the order \<open>a.txt\<close>, \<open>b.txt\<close> with
  LRU tail \<open>b.txt\<close> the selector returns \<open>a.txt\<close>, and in the order \<open>b.txt\<close>,
  \<open>a.txt\<close> with LRU tail \<open>a.txt\<close> it returns \<open>b.txt\<close>.
\<close>

theorem C1_tie_not_broken_by_lru:
  "(case openFile hello_disk ''b.txt'' ''r'' 0 (ContentAwareCache_init 100) of
      Inr (Some hb, c1) \<Rightarrow>
        (case openFile hello_disk ''a.txt'' ''r'' 0 c1 of
           Inr (Some ha, c2) \<Rightarrow>
             priorityScore (heap c2 (entry ha)) = priorityScore (heap c2 (entry hb))
             \<and> findEntryForEviction c2 = ''a.txt''
             \<and> last (lruList c2) = ''b.txt''
         | _ \<Rightarrow> False)
    | _ \<Rightarrow> False)
   \<and> findEntryForEviction (tied_cache [(''a.txt'', 0), (''b.txt'', 1)] [''a.txt'', ''b.txt'']) = ''a.txt''
   \<and> last (lruList (tied_cache [(''a.txt'', 0), (''b.txt'', 1)] [''a.txt'', ''b.txt''])) = ''b.txt''
   \<and> findEntryForEviction (tied_cache [(''b.txt'', 1), (''a.txt'', 0)] [''b.txt'', ''a.txt'']) = ''b.txt''
   \<and> last (lruList (tied_cache [(''b.txt'', 1), (''a.txt'', 0)] [''b.txt'', ''a.txt''])) = ''a.txt''"
proof -
  have "findEntryForEviction (tied_cache [(''a.txt'', 0), (''b.txt'', 1)] [''a.txt'', ''b.txt'']) = ''a.txt''
        \<and> last (lruList (tied_cache [(''a.txt'', 0), (''b.txt'', 1)] [''a.txt'', ''b.txt''])) = ''b.txt''
        \<and> findEntryForEviction (tied_cache [(''b.txt'', 1), (''a.txt'', 0)] [''b.txt'', ''a.txt'']) = ''b.txt''
        \<and> last (lruList (tied_cache [(''b.txt'', 1), (''a.txt'', 0)] [''b.txt'', ''a.txt''])) = ''a.txt''"
    by (simp add: findEntryForEviction_def tied_cache_def tied_entry_def FLT_MAX_def)
  moreover
  have "(case openFile hello_disk ''b.txt'' ''r'' 0 (ContentAwareCache_init 100) of
           Inr (Some hb, c1) \<Rightarrow>
             (case openFile hello_disk ''a.txt'' ''r'' 0 c1 of
                Inr (Some ha, c2) \<Rightarrow>
                  priorityScore (heap c2 (entry ha)) = priorityScore (heap c2 (entry hb))
                  \<and> findEntryForEviction c2 = ''a.txt''
                  \<and> last (lruList c2) = ''b.txt''
              | _ \<Rightarrow> False)
         | _ \<Rightarrow> False)"
    by (simp add: trace_defs)
  ultimately show ?thesis by blast
qed

section \<open>The invariant of reachable states\<close>

lemma clock_monotone_Cons:
  "clock_monotone (now # ts) = ((\<forall>t \<in> set ts. t \<le> now) \<and> clock_monotone ts)"
  by (simp add: clock_monotone_def)

lemma cell_ok_later: "cell_ok ts e \<Longrightarrow> cell_ok (now # ts) e"
  by (simp add: cell_ok_def clock_monotone_Cons)

lemma cell_ok_rescored:
  assumes "priorities_ok pr" and "cell_ok (now # ts) e"
  shows "cell_ok (now # ts) (rescored pr now e)"
proof -
  have "0 \<le> calculatePriorityScore pr e now \<and> calculatePriorityScore pr e now \<le> 1"
    if "clock_monotone (now # ts)"
  proof (rule calculatePriorityScore_bounds [OF assms(1)])
    from assms(2) have "lastAccessed (stats e) \<in> set (now # ts)"
      by (simp add: cell_ok_def)
    with that show "lastAccessed (stats e) \<le> now"
      by (auto simp: clock_monotone_Cons)
  qed
  with assms(2) show ?thesis
    by (simp add: cell_ok_def rescored_simps)
qed

lemma cell_ok_fresh:
  "fileSize (metadata e) = length (data e) \<Longrightarrow> lastAccessed (stats e) = now \<Longrightarrow>
   priorityScore e = 0 \<Longrightarrow> cell_ok (now # ts) e"
  by (simp add: cell_ok_def)

lemma engine_inv_later: "engine_inv ts c \<Longrightarrow> engine_inv (now # ts) c"
  by (simp add: engine_inv_def cell_ok_later)

lemma engine_inv_step:
  assumes "engine_inv ts c"
      and "priorities_ok (fileTypePriorities c')"
      and "lru_ok c'"
      and "next_ref c \<le> next_ref c'"
      and "\<And>kv. kv \<in> set (cacheMap c') \<Longrightarrow> kv \<in> set (cacheMap c) \<or> snd kv < next_ref c'"
      and "\<And>r. r < next_ref c \<Longrightarrow> cell_ok ts (heap c r) \<Longrightarrow> cell_ok ts' (heap c' r)"
      and "\<And>r. next_ref c \<le> r \<Longrightarrow> r < next_ref c' \<Longrightarrow> cell_ok ts' (heap c' r)"
  shows "engine_inv ts' c'"
  unfolding engine_inv_def
proof (intro conjI ballI allI impI)
  show "priorities_ok (fileTypePriorities c')" by fact
  show "lru_ok c'" by fact
next
  fix kv assume "kv \<in> set (cacheMap c')"
  then have "kv \<in> set (cacheMap c) \<or> snd kv < next_ref c'" by (rule assms(5))
  with assms(1,4) show "snd kv < next_ref c'"
    by (auto simp: engine_inv_def)
next
  fix r assume r: "r < next_ref c'"
  show "cell_ok ts' (heap c' r)"
  proof (cases "r < next_ref c")
    case True
    with assms(1) have "cell_ok ts (heap c r)" by (simp add: engine_inv_def)
    with True show ?thesis by (rule assms(6))
  next
    case False
    with r show ?thesis by (intro assms(7)) simp_all
  qed
qed

lemma engine_inv_parts:
  assumes "engine_inv ts c"
  shows "priorities_ok (fileTypePriorities c)" and "lru_ok c"
  using assms by (simp_all add: engine_inv_def)

lemma lru_ok_cong:
  "lruList c' = lruList c \<Longrightarrow> cacheMap c' = cacheMap c \<Longrightarrow> lru_ok c' = lru_ok c"
  by (simp add: lru_ok_def)

lemma lru_ok_updateLRU:
  "lru_ok c \<Longrightarrow> path \<in> fst ` set (cacheMap c) \<Longrightarrow> lru_ok (updateLRU path c)"
  by (auto simp: lru_ok_def updateLRU_def)

lemma lru_ok_insert:
  assumes "lru_ok c" and "cacheMap c' = (path, r) # cacheMap c" and "lruList c' = lruList c"
  shows "lru_ok (updateLRU path c')"
  using assms by (auto simp: lru_ok_def updateLRU_def)

lemma length_resize: "length (resize n bs) = n"
  by (simp add: resize_def)

lemma engine_inv_makeRoomInCache:
  assumes "engine_inv ts c" and "makeRoomInCache requiredSize now c = Inr c'"
  shows "engine_inv (now # ts) c' \<and> next_ref c' = next_ref c"
proof -
  note frame = makeRoomInCache_frame [OF assms(2)]
  note parts = engine_inv_parts [OF assms(1)]
  have "engine_inv (now # ts) c'"
  proof (rule engine_inv_step [OF assms(1)])
    show "priorities_ok (fileTypePriorities c')" using frame parts by simp
    show "lru_ok c'" using assms(2) parts(2) by (rule lru_ok_makeRoomInCache)
    show "next_ref c \<le> next_ref c'" using frame by simp
    show "kv \<in> set (cacheMap c) \<or> snd kv < next_ref c'" if "kv \<in> set (cacheMap c')" for kv
      using that frame by auto
    show "cell_ok (now # ts) (heap c' r)" if "cell_ok ts (heap c r)" for r
    proof -
      from that have later: "cell_ok (now # ts) (heap c r)" by (rule cell_ok_later)
      from frame have "heap c' r = heap c r \<or> heap c' r = rescored (fileTypePriorities c) now (heap c r)"
        by simp
      with later cell_ok_rescored [OF parts(1) later] show ?thesis by auto
    qed
    show "cell_ok (now # ts) (heap c' r)" if "next_ref c \<le> r" and "r < next_ref c'" for r
      using that frame by simp
  qed
  with frame show ?thesis by simp
qed

lemma priorities_ok_default: "priorities_ok (map_of default_priorities)"
  by (auto simp: priorities_ok_def default_priorities_def split: if_splits)

lemma engine_inv_init: "engine_inv [] (ContentAwareCache_init maxSize)"
  by (simp add: engine_inv_def ContentAwareCache_init_def priorities_ok_default lru_ok_def)

lemma engine_inv_counter:
  assumes "engine_inv ts c"
      and "fileTypePriorities c' = fileTypePriorities c" and "lruList c' = lruList c"
      and "cacheMap c' = cacheMap c" and "next_ref c' = next_ref c" and "heap c' = heap c"
  shows "engine_inv ts c'"
  using assms by (simp add: engine_inv_def lru_ok_def)

lemma engine_inv_loadFileIntoCache:
  assumes "engine_inv ts c" and "loadFileIntoCache d path now c = Inr (res, c')"
  shows "engine_inv (now # ts) c'"
proof -
  define meta where "meta = getFileMetadata d path now"
  show ?thesis
  proof (cases "fileSize meta = 0")
    case True
    with assms(2) have "c' = c"
      by (simp add: loadFileIntoCache_def meta_def)
    with assms(1) show ?thesis by (simp add: engine_inv_later)
  next
    case False
    with assms(2) obtain c1 where room: "makeRoomInCache (fileSize meta) now c = Inr c1"
      by (auto simp: loadFileIntoCache_def meta_def Let_def split: sum.splits)
    from engine_inv_makeRoomInCache [OF assms(1) room]
    have inv1: "engine_inv (now # ts) c1" and ref1: "next_ref c1 = next_ref c"
      by simp_all
    show ?thesis
    proof (cases "\<exists>bytes. fs_read d path = Some (bytes, True)")
      case False
      with assms(2) \<open>fileSize meta \<noteq> 0\<close> room have "c' = c1"
        by (auto simp: loadFileIntoCache_def meta_def Let_def split: option.splits prod.splits if_splits)
      with inv1 show ?thesis by simp
    next
      case True
      then obtain bytes where rd: "fs_read d path = Some (bytes, True)" by blast
      define e where "e = (CacheEntry_init meta now)\<lparr>data := resize (fileSize meta) bytes\<rparr>"
      define c2 where "c2 = c1\<lparr>heap := (heap c1)(next_ref c1 := e), next_ref := next_ref c1 + 1,
                                cacheMap := (path, next_ref c1) # cacheMap c1,
                                currentCacheSize := size_t (currentCacheSize c1 + fileSize meta)\<rparr>"
      define c3 where "c3 = (updateLRU path c2)\<lparr>diskReads := diskReads c2 + 1\<rparr>"
      from assms(2) \<open>fileSize meta \<noteq> 0\<close> room rd
      have c': "c' = c3\<lparr>heap := (heap c3)(next_ref c1 := rescored (fileTypePriorities c3) now e)\<rparr>"
        by (simp add: loadFileIntoCache_def meta_def [symmetric] Let_def e_def c2_def c3_def)
      note parts = engine_inv_parts [OF inv1]
      have "cell_ok (now # ts) e"
        by (rule cell_ok_fresh)
           (simp_all add: e_def CacheEntry_init_def AccessStats_init_def length_resize)
      with parts(1) have fresh: "cell_ok (now # ts) (rescored (fileTypePriorities c1) now e)"
        by (rule cell_ok_rescored)
      have lru2: "lru_ok (updateLRU path c2)"
        by (rule lru_ok_insert [OF parts(2)]) (simp_all add: c2_def)
      show ?thesis
      proof (rule engine_inv_step [OF inv1])
        show "priorities_ok (fileTypePriorities c')"
          using parts(1) by (simp add: c' c3_def c2_def updateLRU_def)
        show "lru_ok c'"
          using lru2 by (simp add: c' c3_def lru_ok_def)
        show "next_ref c1 \<le> next_ref c'"
          by (simp add: c' c3_def c2_def updateLRU_def)
        show "kv \<in> set (cacheMap c1) \<or> snd kv < next_ref c'" if "kv \<in> set (cacheMap c')" for kv
          using that by (auto simp: c' c3_def c2_def updateLRU_def)
        show "cell_ok (now # ts) (heap c' r)" if "r < next_ref c1" "cell_ok (now # ts) (heap c1 r)" for r
          using that by (simp add: c' c3_def c2_def updateLRU_def)
        show "cell_ok (now # ts) (heap c' r)" if "next_ref c1 \<le> r" "r < next_ref c'" for r
        proof -
          from that have "r = next_ref c1"
            by (simp add: c' c3_def c2_def updateLRU_def)
          with fresh show ?thesis
            by (simp add: c' c3_def c2_def updateLRU_def)
        qed
      qed
    qed
  qed
qed

lemma engine_inv_openFile:
  assumes "engine_inv ts c" and "openFile d path m now c = Inr (file, c')"
  shows "engine_inv (now # ts) c'"
proof (cases "map_of (cacheMap c) path")
  case (Some r)
  then have key: "path \<in> fst ` set (cacheMap c)"
    by (metis map_of_eq_None_iff option.distinct(1))
  from assms(2) Some have c': "c' = updateLRU path (c\<lparr>cacheHits := cacheHits c + 1\<rparr>)"
    by (simp add: openFile_def)
  have "lru_ok (c\<lparr>cacheHits := cacheHits c + 1\<rparr>)"
    using engine_inv_parts(2) [OF assms(1)] by (simp add: lru_ok_def)
  then have lru: "lru_ok c'"
    unfolding c' using key by (intro lru_ok_updateLRU) simp_all
  show ?thesis
  proof (rule engine_inv_step [OF assms(1)])
    show "priorities_ok (fileTypePriorities c')"
      using engine_inv_parts(1) [OF assms(1)] by (simp add: c' updateLRU_def)
    show "lru_ok c'" by fact
    show "next_ref c \<le> next_ref c'" by (simp add: c' updateLRU_def)
    show "kv \<in> set (cacheMap c) \<or> snd kv < next_ref c'" if "kv \<in> set (cacheMap c')" for kv
      using that by (simp add: c' updateLRU_def)
    show "cell_ok (now # ts) (heap c' r)" if "cell_ok ts (heap c r)" for r
      using that by (simp add: c' updateLRU_def cell_ok_later)
    show "cell_ok (now # ts) (heap c' r)" if "next_ref c \<le> r" "r < next_ref c'" for r
      using that by (simp add: c' updateLRU_def)
  qed
next
  case None
  define c1 where "c1 = c\<lparr>cacheMisses := cacheMisses c + 1\<rparr>"
  have "engine_inv ts c1"
    by (rule engine_inv_counter [OF assms(1)]) (simp_all add: c1_def)
  then have inv1: "engine_inv (now # ts) c1"
    by (rule engine_inv_later)
  show ?thesis
  proof (cases "CHR ''r'' \<in> set m \<and> \<not> fs_exists d path")
    case True
    with assms None have "c' = c1"
      by (simp add: openFile_def c1_def)
    with inv1 show ?thesis by simp
  next
    case False
    note not_missing = this
    show ?thesis
    proof (cases "CHR ''w'' \<in> set m")
      case True
      define e where "e = CacheEntry_init ((getFileMetadata d path now)\<lparr>fileSize := 0\<rparr>) now"
      define c2 where "c2 = c1\<lparr>heap := (heap c1)(next_ref c1 := e), next_ref := next_ref c1 + 1,
                                cacheMap := (path, next_ref c1) # cacheMap c1\<rparr>"
      from assms None not_missing True have c': "c' = updateLRU path c2"
        by (auto simp: openFile_def c1_def c2_def e_def Let_def)
      have fresh: "cell_ok (now # ts) e"
        by (rule cell_ok_fresh) (simp_all add: e_def CacheEntry_init_def AccessStats_init_def)
      note parts = engine_inv_parts [OF inv1]
      show ?thesis
      proof (rule engine_inv_step [OF inv1])
        show "priorities_ok (fileTypePriorities c')"
          using parts(1) by (simp add: c' c2_def updateLRU_def)
        show "lru_ok c'"
          unfolding c' by (rule lru_ok_insert [OF parts(2)]) (simp_all add: c2_def)
        show "next_ref c1 \<le> next_ref c'"
          by (simp add: c' c2_def updateLRU_def)
        show "kv \<in> set (cacheMap c1) \<or> snd kv < next_ref c'" if "kv \<in> set (cacheMap c')" for kv
          using that by (auto simp: c' c2_def updateLRU_def)
        show "cell_ok (now # ts) (heap c' r)" if "r < next_ref c1" "cell_ok (now # ts) (heap c1 r)" for r
          using that by (simp add: c' c2_def updateLRU_def)
        show "cell_ok (now # ts) (heap c' r)" if "next_ref c1 \<le> r" "r < next_ref c'" for r
        proof -
          from that have "r = next_ref c1"
            by (simp add: c' c2_def updateLRU_def)
          with fresh show ?thesis
            by (simp add: c' c2_def updateLRU_def)
        qed
      qed
    next
      case False
      with assms(2) None not_missing obtain res where "loadFileIntoCache d path now c1 = Inr (res, c')"
        by (auto simp: openFile_def c1_def Let_def split: sum.splits option.splits prod.splits)
      with \<open>engine_inv ts c1\<close> show ?thesis
        by (rule engine_inv_loadFileIntoCache)
    qed
  qed
qed

lemma engine_inv_cell_update:
  assumes "engine_inv ts c" and "r < next_ref c" and "cell_ok ts e"
      and "fileTypePriorities c' = fileTypePriorities c" and "lruList c' = lruList c"
      and "cacheMap c' = cacheMap c" and "next_ref c' = next_ref c"
      and "heap c' = (heap c)(r := e)"
  shows "engine_inv ts c'"
  using assms by (simp add: engine_inv_def lru_ok_def)

lemma makeRoomInCache_keeps_files:
  assumes "makeRoomInCache requiredSize now c = Inr c'"
  shows "metadata (heap c' r) = metadata (heap c r) \<and> data (heap c' r) = data (heap c r)
         \<and> stats (heap c' r) = stats (heap c r)"
proof -
  from makeRoomInCache_frame [OF assms]
  have "heap c' r = heap c r \<or> heap c' r = rescored (fileTypePriorities c) now (heap c r)"
    by simp
  then show ?thesis by (auto simp: rescored_simps)
qed

lemma cell_ok_data:
  "cell_ok ts e \<Longrightarrow> fileSize (metadata e) \<le> length bs \<Longrightarrow> cell_ok ts (e\<lparr>data := bs\<rparr>)"
  by (simp add: cell_ok_def)

lemma cell_ok_size: "cell_ok ts e \<Longrightarrow> fileSize (metadata e) \<le> length (data e)"
  by (simp add: cell_ok_def)

lemma engine_inv_cell: "engine_inv ts c \<Longrightarrow> r < next_ref c \<Longrightarrow> cell_ok ts (heap c r)"
  by (simp add: engine_inv_def)

lemma engine_inv_grow_entry:
  assumes "engine_inv ts c" and "r < next_ref c" and "length (data (heap c r)) \<le> newSize"
      and "grow_entry r newSize now c = Inr c'"
  shows "engine_inv (now # ts) c' \<and> next_ref c' = next_ref c
         \<and> metadata (heap c' r) = metadata (heap c r)
         \<and> length (data (heap c' r)) = newSize"
proof -
  from assms(4) obtain c1 where
    room: "makeRoomInCache (size_t_sub newSize (length (data (heap c r)))) now c = Inr c1"
    and c': "c' = c1\<lparr>heap := (heap c1)(r := (heap c1 r)\<lparr>data := resize newSize (data (heap c1 r))\<rparr>),
                    currentCacheSize := size_t (currentCacheSize c1
                       + size_t_sub newSize (length (data (heap c r))))\<rparr>"
    by (auto simp: grow_entry_def Let_def split: sum.splits)
  from engine_inv_makeRoomInCache [OF assms(1) room]
  have inv1: "engine_inv (now # ts) c1" and ref1: "next_ref c1 = next_ref c"
    by simp_all
  note keep = makeRoomInCache_keeps_files [OF room, of r]
  from inv1 assms(2) ref1 have ok: "cell_ok (now # ts) (heap c1 r)"
    by (intro engine_inv_cell) simp_all
  have "fileSize (metadata (heap c1 r)) \<le> newSize"
    using cell_ok_size [OF ok] keep assms(3) by simp
  then have cell: "cell_ok (now # ts) ((heap c1 r)\<lparr>data := resize newSize (data (heap c1 r))\<rparr>)"
    by (intro cell_ok_data ok) (simp add: length_resize)
  have "engine_inv (now # ts) c'"
    by (rule engine_inv_cell_update [OF inv1 _ cell, where r = r]) (simp_all add: c' ref1 assms(2))
  then show ?thesis
    using ref1 keep by (simp add: c' length_resize)
qed

lemma engine_inv_write:
  assumes "engine_inv ts c" and "entry h < next_ref c"
      and "CacheFile_write h buffer sz count now c = Inr (n, h', c')"
  shows "engine_inv (now # ts) c'"
proof (cases "CHR ''w'' \<notin> set (mode h) \<and> CHR ''a'' \<notin> set (mode h)")
  case True
  with assms(3) have "c' = c" by (simp add: CacheFile_write_def)
  with assms(1) show ?thesis by (simp add: engine_inv_later)
next
  case False
  define r where "r = entry h"
  define bytesToWrite where "bytesToWrite = size_t (sz * count)"
  define pos where "pos = (if CHR ''a'' \<in> set (mode h) \<and> position h \<noteq> length (data (heap c r))
                           then length (data (heap c r)) else position h)"
  define grows where "grows = (size_t (pos + bytesToWrite) > length (data (heap c r)) \<and> cachePtr h)"
  define grown where
    "grown = (if grows then grow_entry r (size_t (pos + bytesToWrite)) now c else Inr c)"
  from assms(3) False
  have run: "(case grown of
                Inl f \<Rightarrow> Inl f
              | Inr c1 \<Rightarrow>
                  if length buffer < bytesToWrite \<or> pos + bytesToWrite > length (data (heap c1 r))
                  then Inl OutOfBounds
                  else Inr (count,
                            h\<lparr>position := size_t (pos + bytesToWrite), modified := True\<rparr>,
                            c1\<lparr>heap := (heap c1)(r := (heap c1 r)
                               \<lparr>data := take pos (data (heap c1 r)) @ take bytesToWrite buffer
                                          @ drop (pos + bytesToWrite) (data (heap c1 r))\<rparr>)\<rparr>))
             = Inr (n, h', c')"
    unfolding CacheFile_write_def Let_def grown_def grows_def pos_def bytesToWrite_def r_def
    by (simp only: if_False)
  then obtain c1 where grown: "grown = Inr c1"
    by (cases grown) simp_all
  from run have fits: "\<not> (length buffer < bytesToWrite \<or> pos + bytesToWrite > length (data (heap c1 r)))"
    unfolding grown by (simp split: if_splits)
  from run fits have c': "c' = c1\<lparr>heap := (heap c1)(r := (heap c1 r)
               \<lparr>data := take pos (data (heap c1 r)) @ take bytesToWrite buffer
                          @ drop (pos + bytesToWrite) (data (heap c1 r))\<rparr>)\<rparr>"
    unfolding grown by simp
  have inv1: "engine_inv (now # ts) c1 \<and> next_ref c1 = next_ref c"
  proof (cases grows)
    case True
    with grown have "grow_entry r (size_t (pos + bytesToWrite)) now c = Inr c1"
      by (simp add: grown_def)
    from engine_inv_grow_entry [OF assms(1) _ _ this] True assms(2) show ?thesis
      by (simp add: grows_def r_def)
  next
    case False
    with grown have "c1 = c" by (simp add: grown_def)
    with assms(1) show ?thesis by (simp add: engine_inv_later)
  qed
  then have ok: "cell_ok (now # ts) (heap c1 r)"
    using assms(2) by (intro engine_inv_cell) (simp_all add: r_def)
  have "length (take pos (data (heap c1 r)) @ take bytesToWrite buffer
                  @ drop (pos + bytesToWrite) (data (heap c1 r)))
          = length (data (heap c1 r))"
    using fits by simp
  with cell_ok_size [OF ok]
  have cell: "cell_ok (now # ts) ((heap c1 r)
               \<lparr>data := take pos (data (heap c1 r)) @ take bytesToWrite buffer
                          @ drop (pos + bytesToWrite) (data (heap c1 r))\<rparr>)"
    by (intro cell_ok_data ok) simp
  show ?thesis
    by (rule engine_inv_cell_update [OF inv1 [THEN conjunct1] _ cell, where r = r])
       (use inv1 assms(2) in \<open>simp_all add: c' r_def\<close>)
qed

lemma engine_inv_CacheFile_flush:
  assumes "engine_inv ts c" and "CacheFile_flush d h c = (res, h', c')"
  shows "engine_inv ts c'"
  by (rule engine_inv_counter [OF assms(1)])
     (use assms(2) in \<open>auto simp: CacheFile_flush_def split: if_splits\<close>)

lemma engine_inv_flush: "engine_inv ts c \<Longrightarrow> engine_inv ts (flush d c)"
  by (erule engine_inv_counter) (simp_all add: flush_def)

lemma engine_inv_updateEntryScore:
  assumes "engine_inv (now # ts) c"
  shows "engine_inv (now # ts) (updateEntryScore path now c)"
proof (cases "map_of (cacheMap c) path")
  case None
  with assms show ?thesis by (simp add: updateEntryScore_def)
next
  case (Some r)
  then have "(path, r) \<in> set (cacheMap c)" by (rule map_of_SomeD)
  with assms have r: "r < next_ref c" by (auto simp: engine_inv_def)
  with assms have "cell_ok (now # ts) (heap c r)" by (intro engine_inv_cell)
  with engine_inv_parts(1) [OF assms]
  have cell: "cell_ok (now # ts) (rescored (fileTypePriorities c) now (heap c r))"
    by (rule cell_ok_rescored)
  show ?thesis
    by (rule engine_inv_cell_update [OF assms r cell]) (simp_all add: updateEntryScore_def Some)
qed

lemma cell_ok_touch:
  assumes "cell_ok ts e"
  shows "cell_ok (now # ts) (e\<lparr>stats := \<lparr>accessCount = k, lastAccessed = now\<rparr>\<rparr>)"
  using assms by (simp add: cell_ok_def clock_monotone_Cons)

lemma engine_inv_CacheFile_destroy:
  assumes "engine_inv ts c" and "entry h < next_ref c"
  shows "engine_inv (now # ts) (CacheFile_destroy d h now c)"
proof -
  define c1 where "c1 = (if modified h then snd (snd (CacheFile_flush d h c)) else c)"
  have "engine_inv ts c1"
    by (rule engine_inv_counter [OF assms(1)])
       (auto simp: c1_def CacheFile_flush_def)
  then have inv1: "engine_inv (now # ts) c1" by (rule engine_inv_later)
  have same: "next_ref c1 = next_ref c" "heap c1 = heap c"
    by (auto simp: c1_def CacheFile_flush_def)
  show ?thesis
  proof (cases "cachePtr h")
    case False
    with inv1 show ?thesis by (simp add: CacheFile_destroy_def c1_def [symmetric] Let_def)
  next
    case True
    define e' where "e' = (heap c1 (entry h))
        \<lparr>stats := \<lparr>accessCount = size_t (accessCount (stats (heap c1 (entry h))) + 1),
                    lastAccessed = now\<rparr>\<rparr>"
    define c2 where "c2 = c1\<lparr>heap := (heap c1)(entry h := e')\<rparr>"
    from True have result: "CacheFile_destroy d h now c = updateEntryScore (filePath (metadata e')) now c2"
      by (simp add: CacheFile_destroy_def c1_def [symmetric] Let_def e'_def c2_def)
    from assms have "cell_ok ts (heap c1 (entry h))"
      by (simp add: same engine_inv_cell)
    then have cell: "cell_ok (now # ts) e'"
      unfolding e'_def by (rule cell_ok_touch)
    have "engine_inv (now # ts) c2"
      by (rule engine_inv_cell_update [OF inv1 _ cell, where r = "entry h"])
         (use assms(2) in \<open>simp_all add: c2_def same\<close>)
    then show ?thesis
      unfolding result by (rule engine_inv_updateEntryScore)
  qed
qed

lemma engine_inv_resizeCache:
  assumes "engine_inv ts c" and "resizeCache newMaxSize now c = Inr c'"
  shows "engine_inv (now # ts) c'"
proof -
  from assms(2) obtain c1 where
    room: "(if newMaxSize < maxCacheSize c
            then makeRoomInCache (size_t_sub (maxCacheSize c) newMaxSize) now c else Inr c) = Inr c1"
    and c': "c' = c1\<lparr>maxCacheSize := newMaxSize\<rparr>"
    by (auto simp: resizeCache_def split: sum.splits)
  have "engine_inv (now # ts) c1"
  proof (cases "newMaxSize < maxCacheSize c")
    case True
    with room engine_inv_makeRoomInCache [OF assms(1)] show ?thesis by simp
  next
    case False
    with room assms(1) show ?thesis by (simp add: engine_inv_later)
  qed
  then show ?thesis
    by (rule engine_inv_counter) (simp_all add: c')
qed

lemma priorities_ok_update:
  "priorities_ok pr \<Longrightarrow> priorities_ok (pr(k \<mapsto> max 0 (min 1 p)))"
  by (simp add: priorities_ok_def)

lemma engine_inv_setFileTypePriority:
  assumes "engine_inv ts c"
  shows "engine_inv (now # ts) (setFileTypePriority extension priority now c)"
proof -
  define pr where "pr = (fileTypePriorities c)(with_leading_dot extension \<mapsto> max 0 (min 1 priority))"
  define c' where "c' = setFileTypePriority extension priority now c"
  have fields: "fileTypePriorities c' = pr" "lruList c' = lruList c" "cacheMap c' = cacheMap c"
    "next_ref c' = next_ref c"
    "heap c' = setFileTypePriority_loop (with_leading_dot extension) pr now (cacheMap c) (heap c)"
    by (simp_all add: c'_def setFileTypePriority_def Let_def pr_def)
  have pr: "priorities_ok pr"
    unfolding pr_def using engine_inv_parts(1) [OF assms] by (rule priorities_ok_update)
  have "engine_inv (now # ts) c'"
  proof (rule engine_inv_step [OF assms])
    show "priorities_ok (fileTypePriorities c')" using pr by (simp add: fields)
    show "lru_ok c'" using engine_inv_parts(2) [OF assms] by (simp add: lru_ok_def fields)
    show "next_ref c \<le> next_ref c'" by (simp add: fields)
    show "kv \<in> set (cacheMap c) \<or> snd kv < next_ref c'" if "kv \<in> set (cacheMap c')" for kv
      using that by (simp add: fields)
    show "cell_ok (now # ts) (heap c' r)" if "cell_ok ts (heap c r)" for r
    proof -
      from that have later: "cell_ok (now # ts) (heap c r)" by (rule cell_ok_later)
      with cell_ok_rescored [OF pr later] show ?thesis
        by (simp add: fields setFileTypePriority_loop_at)
    qed
    show "cell_ok (now # ts) (heap c' r)" if "next_ref c \<le> r" "r < next_ref c'" for r
      using that by (simp add: fields)
  qed
  then show ?thesis by (simp add: c'_def)
qed

lemma reachable_engine_inv: "reachable ts c \<Longrightarrow> engine_inv ts c"
proof (induction rule: reachable.induct)
  case (reach_init maxSize)
  show ?case by (rule engine_inv_init)
next
  case (reach_openFile ts c d path m now res c')
  from reach_openFile.IH reach_openFile.hyps(2) show ?case
    by (rule engine_inv_openFile)
next
  case (reach_write ts c h buffer sz count now n h' c')
  from reach_write.IH reach_write.hyps(2,3) show ?case
    by (rule engine_inv_write)
next
  case (reach_handle_flush ts c h d res h' c')
  from reach_handle_flush.IH reach_handle_flush.hyps(3) show ?case
    by (rule engine_inv_CacheFile_flush)
next
  case (reach_closeFile ts c h d now ok c')
  from reach_closeFile.hyps(3) have "c' = CacheFile_destroy d h now c"
    by (simp add: closeFile_def)
  with reach_closeFile.IH reach_closeFile.hyps(2) show ?case
    by (simp add: engine_inv_CacheFile_destroy)
next
  case (reach_flush ts c d)
  then show ?case by (simp add: engine_inv_flush)
next
  case (reach_resizeCache ts c newMaxSize now c')
  from reach_resizeCache.IH reach_resizeCache.hyps(2) show ?case
    by (rule engine_inv_resizeCache)
next
  case (reach_setFileTypePriority ts c now extension priority)
  then show ?case by (simp add: engine_inv_setFileTypePriority)
qed

section \<open>Recorded file size, on reachable states\<close>

lemma CacheFile_write_keeps_metadata:
  assumes "CacheFile_write h buffer sz count now c = Inr (n, h', c')"
  shows "metadata (heap c' (entry h)) = metadata (heap c (entry h))
         \<and> length (data (heap c (entry h))) \<le> length (data (heap c' (entry h)))"
proof (cases "CHR ''w'' \<notin> set (mode h) \<and> CHR ''a'' \<notin> set (mode h)")
  case True
  with assms have "c' = c" by (simp add: CacheFile_write_def)
  then show ?thesis by simp
next
  case False
  define r where "r = entry h"
  define bytesToWrite where "bytesToWrite = size_t (sz * count)"
  define pos where "pos = (if CHR ''a'' \<in> set (mode h) \<and> position h \<noteq> length (data (heap c r))
                           then length (data (heap c r)) else position h)"
  define grows where "grows = (size_t (pos + bytesToWrite) > length (data (heap c r)) \<and> cachePtr h)"
  define grown where
    "grown = (if grows then grow_entry r (size_t (pos + bytesToWrite)) now c else Inr c)"
  from assms False
  have run: "(case grown of
                Inl f \<Rightarrow> Inl f
              | Inr c1 \<Rightarrow>
                  if length buffer < bytesToWrite \<or> pos + bytesToWrite > length (data (heap c1 r))
                  then Inl OutOfBounds
                  else Inr (count,
                            h\<lparr>position := size_t (pos + bytesToWrite), modified := True\<rparr>,
                            c1\<lparr>heap := (heap c1)(r := (heap c1 r)
                               \<lparr>data := take pos (data (heap c1 r)) @ take bytesToWrite buffer
                                          @ drop (pos + bytesToWrite) (data (heap c1 r))\<rparr>)\<rparr>))
             = Inr (n, h', c')"
    unfolding CacheFile_write_def Let_def grown_def grows_def pos_def bytesToWrite_def r_def
    by (simp only: if_False)
  then obtain c1 where grown: "grown = Inr c1"
    by (cases grown) simp_all
  from run have fits: "\<not> (length buffer < bytesToWrite \<or> pos + bytesToWrite > length (data (heap c1 r)))"
    unfolding grown by (simp split: if_splits)
  from run fits have c': "c' = c1\<lparr>heap := (heap c1)(r := (heap c1 r)
               \<lparr>data := take pos (data (heap c1 r)) @ take bytesToWrite buffer
                          @ drop (pos + bytesToWrite) (data (heap c1 r))\<rparr>)\<rparr>"
    unfolding grown by simp
  have c1: "metadata (heap c1 r) = metadata (heap c r)
            \<and> length (data (heap c r)) \<le> length (data (heap c1 r))"
  proof (cases grows)
    case True
    with grown obtain cm where
      room: "makeRoomInCache (size_t_sub (size_t (pos + bytesToWrite)) (length (data (heap c r)))) now c
               = Inr cm"
      and cg: "c1 = cm\<lparr>heap := (heap cm)(r := (heap cm r)
                         \<lparr>data := resize (size_t (pos + bytesToWrite)) (data (heap cm r))\<rparr>),
                       currentCacheSize := size_t (currentCacheSize cm
                         + size_t_sub (size_t (pos + bytesToWrite)) (length (data (heap c r))))\<rparr>"
      by (auto simp: grown_def grow_entry_def Let_def split: sum.splits)
    from makeRoomInCache_keeps_files [OF room, of r] True show ?thesis
      by (simp add: cg length_resize grows_def)
  next
    case False
    with grown show ?thesis by (simp add: grown_def)
  qed
  from fits have "length (take pos (data (heap c1 r)) @ take bytesToWrite buffer
                  @ drop (pos + bytesToWrite) (data (heap c1 r)))
          = length (data (heap c1 r))"
    by simp
  with c1 show ?thesis
    by (simp add: c' r_def [symmetric])
qed

lemma openFile_miss_admits_exact_size:
  assumes "map_of (cacheMap c) path = None" and "openFile d path m now c = Inr (Some h, c')"
  shows "fileSize (metadata (heap c' (entry h))) = length (data (heap c' (entry h)))"
proof (cases "CHR ''w'' \<in> set m")
  case True
  with assms show ?thesis
    by (auto simp: openFile_def Let_def updateLRU_def CacheFile_init_def CacheEntry_init_def
             split: if_splits)
next
  case False
  define c1 where "c1 = c\<lparr>cacheMisses := cacheMisses c + 1\<rparr>"
  from assms False obtain r where load: "loadFileIntoCache d path now c1 = Inr (Some r, c')"
    and h: "h = CacheFile_init r m"
    by (auto simp: openFile_def c1_def Let_def split: if_splits sum.splits option.splits prod.splits)
  define meta where "meta = getFileMetadata d path now"
  from load have nonzero: "fileSize meta \<noteq> 0"
    by (auto simp: loadFileIntoCache_def meta_def Let_def split: if_splits)
  with load obtain cm where room: "makeRoomInCache (fileSize meta) now c1 = Inr cm"
    by (auto simp: loadFileIntoCache_def meta_def Let_def split: sum.splits)
  from load nonzero room obtain bytes where rd: "fs_read d path = Some (bytes, True)"
    by (auto simp: loadFileIntoCache_def meta_def Let_def split: option.splits prod.splits if_splits)
  from load nonzero room rd
  have "heap c' r
          = rescored (fileTypePriorities cm) now
              ((CacheEntry_init meta now)\<lparr>data := resize (fileSize meta) bytes\<rparr>)"
    by (auto simp: loadFileIntoCache_def meta_def [symmetric] Let_def updateLRU_def)
  then have "fileSize (metadata (heap c' r)) = length (data (heap c' r))"
    by (simp add: rescored_simps CacheEntry_init_def length_resize)
  then show ?thesis
    by (simp add: h CacheFile_init_def)
qed

lemma CacheFile_write_cells:
  assumes "CacheFile_write h buffer sz count now c = Inr (n, h', c')"
  shows "next_ref c' = next_ref c
         \<and> metadata (heap c' r) = metadata (heap c r)
         \<and> (r \<noteq> entry h \<longrightarrow> data (heap c' r) = data (heap c r))
         \<and> length (data (heap c r)) \<le> length (data (heap c' r))"
proof (cases "CHR ''w'' \<notin> set (mode h) \<and> CHR ''a'' \<notin> set (mode h)")
  case True
  with assms have "c' = c" by (simp add: CacheFile_write_def)
  then show ?thesis by simp
next
  case False
  define e where "e = entry h"
  define bytesToWrite where "bytesToWrite = size_t (sz * count)"
  define pos where "pos = (if CHR ''a'' \<in> set (mode h) \<and> position h \<noteq> length (data (heap c e))
                           then length (data (heap c e)) else position h)"
  define grows where "grows = (size_t (pos + bytesToWrite) > length (data (heap c e)) \<and> cachePtr h)"
  define grown where
    "grown = (if grows then grow_entry e (size_t (pos + bytesToWrite)) now c else Inr c)"
  from assms False
  have run: "(case grown of
                Inl f \<Rightarrow> Inl f
              | Inr c1 \<Rightarrow>
                  if length buffer < bytesToWrite \<or> pos + bytesToWrite > length (data (heap c1 e))
                  then Inl OutOfBounds
                  else Inr (count,
                            h\<lparr>position := size_t (pos + bytesToWrite), modified := True\<rparr>,
                            c1\<lparr>heap := (heap c1)(e := (heap c1 e)
                               \<lparr>data := take pos (data (heap c1 e)) @ take bytesToWrite buffer
                                          @ drop (pos + bytesToWrite) (data (heap c1 e))\<rparr>)\<rparr>))
             = Inr (n, h', c')"
    unfolding CacheFile_write_def Let_def grown_def grows_def pos_def bytesToWrite_def e_def
    by (simp only: if_False)
  then obtain c1 where grown: "grown = Inr c1"
    by (cases grown) simp_all
  from run have fits: "\<not> (length buffer < bytesToWrite \<or> pos + bytesToWrite > length (data (heap c1 e)))"
    unfolding grown by (simp split: if_splits)
  from run fits have c': "c' = c1\<lparr>heap := (heap c1)(e := (heap c1 e)
               \<lparr>data := take pos (data (heap c1 e)) @ take bytesToWrite buffer
                          @ drop (pos + bytesToWrite) (data (heap c1 e))\<rparr>)\<rparr>"
    unfolding grown by simp
  have c1: "next_ref c1 = next_ref c \<and> metadata (heap c1 r) = metadata (heap c r)
            \<and> (r \<noteq> e \<longrightarrow> data (heap c1 r) = data (heap c r))
            \<and> length (data (heap c r)) \<le> length (data (heap c1 r))"
  proof (cases grows)
    case True
    with grown obtain cm where
      room: "makeRoomInCache (size_t_sub (size_t (pos + bytesToWrite)) (length (data (heap c e)))) now c
               = Inr cm"
      and cg: "c1 = cm\<lparr>heap := (heap cm)(e := (heap cm e)
                         \<lparr>data := resize (size_t (pos + bytesToWrite)) (data (heap cm e))\<rparr>),
                       currentCacheSize := size_t (currentCacheSize cm
                         + size_t_sub (size_t (pos + bytesToWrite)) (length (data (heap c e))))\<rparr>"
      by (auto simp: grown_def grow_entry_def Let_def split: sum.splits)
    from makeRoomInCache_keeps_files [OF room, of r] makeRoomInCache_frame [OF room] True
    show ?thesis
      by (auto simp: cg length_resize grows_def)
  next
    case False
    with grown show ?thesis by (simp add: grown_def)
  qed
  from fits have "length (take pos (data (heap c1 e)) @ take bytesToWrite buffer
                  @ drop (pos + bytesToWrite) (data (heap c1 e)))
          = length (data (heap c1 e))"
    by simp
  with c1 show ?thesis
    by (auto simp: c' e_def [symmetric])
qed

lemma loadFileIntoCache_cells:
  assumes "loadFileIntoCache d path now c = Inr (res, c')"
  shows "next_ref c \<le> next_ref c'
         \<and> (r < next_ref c \<longrightarrow> metadata (heap c' r) = metadata (heap c r)
                                \<and> data (heap c' r) = data (heap c r))
         \<and> (next_ref c \<le> r \<and> r < next_ref c' \<longrightarrow>
               fileSize (metadata (heap c' r)) = length (data (heap c' r)))"
proof -
  define meta where "meta = getFileMetadata d path now"
  show ?thesis
  proof (cases "fileSize meta = 0")
    case True
    with assms have "c' = c"
      by (simp add: loadFileIntoCache_def meta_def)
    then show ?thesis by simp
  next
    case False
    with assms obtain c1 where room: "makeRoomInCache (fileSize meta) now c = Inr c1"
      by (auto simp: loadFileIntoCache_def meta_def Let_def split: sum.splits)
    note keep = makeRoomInCache_keeps_files [OF room, of r]
    from makeRoomInCache_frame [OF room] have ref1: "next_ref c1 = next_ref c" by simp
    show ?thesis
    proof (cases "\<exists>bytes. fs_read d path = Some (bytes, True)")
      case False
      with assms \<open>fileSize meta \<noteq> 0\<close> room have "c' = c1"
        by (auto simp: loadFileIntoCache_def meta_def Let_def split: option.splits prod.splits if_splits)
      with keep ref1 show ?thesis by simp
    next
      case True
      then obtain bytes where rd: "fs_read d path = Some (bytes, True)" by blast
      define e where "e = (CacheEntry_init meta now)\<lparr>data := resize (fileSize meta) bytes\<rparr>"
      define c2 where "c2 = c1\<lparr>heap := (heap c1)(next_ref c1 := e), next_ref := next_ref c1 + 1,
                                cacheMap := (path, next_ref c1) # cacheMap c1,
                                currentCacheSize := size_t (currentCacheSize c1 + fileSize meta)\<rparr>"
      define c3 where "c3 = (updateLRU path c2)\<lparr>diskReads := diskReads c2 + 1\<rparr>"
      from assms \<open>fileSize meta \<noteq> 0\<close> room rd
      have c': "c' = c3\<lparr>heap := (heap c3)(next_ref c1 := rescored (fileTypePriorities c3) now e)\<rparr>"
        by (simp add: loadFileIntoCache_def meta_def [symmetric] Let_def e_def c2_def c3_def)
      have "fileSize (metadata (rescored (fileTypePriorities c3) now e)) 
              = length (data (rescored (fileTypePriorities c3) now e))"
        by (simp add: rescored_simps e_def CacheEntry_init_def length_resize)
      with keep ref1 show ?thesis
        by (auto simp: c' c3_def c2_def updateLRU_def)
    qed
  qed
qed

lemma openFile_cells:
  assumes "openFile d path m now c = Inr (res, c')"
  shows "next_ref c \<le> next_ref c'
         \<and> (r < next_ref c \<longrightarrow> metadata (heap c' r) = metadata (heap c r)
                                \<and> data (heap c' r) = data (heap c r))
         \<and> (next_ref c \<le> r \<and> r < next_ref c' \<longrightarrow>
               fileSize (metadata (heap c' r)) = length (data (heap c' r)))"
proof (cases "map_of (cacheMap c) path")
  case (Some r0)
  with assms have "c' = updateLRU path (c\<lparr>cacheHits := cacheHits c + 1\<rparr>)"
    by (simp add: openFile_def)
  then show ?thesis by (simp add: updateLRU_def)
next
  case None
  define c1 where "c1 = c\<lparr>cacheMisses := cacheMisses c + 1\<rparr>"
  have same: "next_ref c1 = next_ref c" "heap c1 = heap c"
    by (simp_all add: c1_def)
  show ?thesis
  proof (cases "CHR ''r'' \<in> set m \<and> \<not> fs_exists d path")
    case True
    with assms None have "c' = c1"
      by (simp add: openFile_def c1_def)
    then show ?thesis by (simp add: same)
  next
    case False
    note not_missing = this
    show ?thesis
    proof (cases "CHR ''w'' \<in> set m")
      case True
      define e where "e = CacheEntry_init ((getFileMetadata d path now)\<lparr>fileSize := 0\<rparr>) now"
      define c2 where "c2 = c1\<lparr>heap := (heap c1)(next_ref c1 := e), next_ref := next_ref c1 + 1,
                                cacheMap := (path, next_ref c1) # cacheMap c1\<rparr>"
      from assms None not_missing True have c': "c' = updateLRU path c2"
        by (auto simp: openFile_def c1_def c2_def e_def Let_def)
      have "fileSize (metadata e) = length (data e)"
        by (simp add: e_def CacheEntry_init_def)
      then show ?thesis
        by (auto simp: c' c2_def updateLRU_def same)
    next
      case False
      with assms None not_missing obtain res' where "loadFileIntoCache d path now c1 = Inr (res', c')"
        by (auto simp: openFile_def c1_def Let_def split: sum.splits option.splits prod.splits)
      from loadFileIntoCache_cells [OF this, of r] show ?thesis
        by (simp add: same)
    qed
  qed
qed

lemma CacheFile_destroy_cells:
  "next_ref (CacheFile_destroy d h now c) = next_ref c
   \<and> metadata (heap (CacheFile_destroy d h now c) r) = metadata (heap c r)
   \<and> data (heap (CacheFile_destroy d h now c) r) = data (heap c r)"
  by (simp add: CacheFile_destroy_def CacheFile_flush_def Let_def updateEntryScore_def
        rescored_simps split: option.splits)

lemma resizeCache_cells:
  assumes "resizeCache newMaxSize now c = Inr c'"
  shows "next_ref c' = next_ref c \<and> metadata (heap c' r) = metadata (heap c r)
         \<and> data (heap c' r) = data (heap c r)"
proof (cases "newMaxSize < maxCacheSize c")
  case True
  with assms obtain c1 where
    room: "makeRoomInCache (size_t_sub (maxCacheSize c) newMaxSize) now c = Inr c1"
    and c': "c' = c1\<lparr>maxCacheSize := newMaxSize\<rparr>"
    by (auto simp: resizeCache_def split: sum.splits)
  from makeRoomInCache_keeps_files [OF room, of r] makeRoomInCache_frame [OF room] show ?thesis
    by (simp add: c')
next
  case False
  with assms show ?thesis by (auto simp: resizeCache_def)
qed

lemma setFileTypePriority_cells:
  "next_ref (setFileTypePriority extension priority now c) = next_ref c
   \<and> metadata (heap (setFileTypePriority extension priority now c) r) = metadata (heap c r)
   \<and> data (heap (setFileTypePriority extension priority now c) r) = data (heap c r)"
  by (simp add: setFileTypePriority_def Let_def setFileTypePriority_loop_at rescored_simps)


lemma public_step_cells:
  assumes "public_step c c'"
  shows "next_ref c \<le> next_ref c'
         \<and> (r < next_ref c \<longrightarrow>
               metadata (heap c' r) = metadata (heap c r)
               \<and> length (data (heap c r)) \<le> length (data (heap c' r))
               \<and> (data (heap c' r) \<noteq> data (heap c r) \<longrightarrow>
                    (\<exists>h buffer sz count now n h'.
                        entry h = r \<and> CacheFile_write h buffer sz count now c = Inr (n, h', c'))))
         \<and> (next_ref c \<le> r \<and> r < next_ref c' \<longrightarrow>
               fileSize (metadata (heap c' r)) = length (data (heap c' r)))"
  using assms
proof (cases rule: public_step.cases)
  case (step_openFile d path m now res)
  from openFile_cells [OF this, of r] show ?thesis by auto
next
  case (step_write h buffer sz count now n h')
  from CacheFile_write_cells [OF step_write(2), of r] step_write(2) show ?thesis
    by auto
next
  case (step_handle_flush h d res h')
  then have "next_ref c' = next_ref c \<and> heap c' = heap c"
    by (auto simp: CacheFile_flush_def split: if_splits)
  then show ?thesis by simp
next
  case (step_closeFile h d now ok)
  then have "c' = CacheFile_destroy d h now c"
    by (simp add: closeFile_def)
  with CacheFile_destroy_cells [of d h now c r] show ?thesis by simp
next
  case (step_flush d)
  then show ?thesis by (simp add: flush_def)
next
  case (step_resizeCache newMaxSize now)
  from resizeCache_cells [OF this, of r] show ?thesis by simp
next
  case (step_setFileTypePriority extension priority now)
  with setFileTypePriority_cells [of extension priority now c r] show ?thesis by simp
qed

lemma public_run_cells:
  assumes "public_step\<^sup>*\<^sup>* c c'"
  shows "next_ref c \<le> next_ref c'
         \<and> (r < next_ref c \<longrightarrow>
               metadata (heap c' r) = metadata (heap c r)
               \<and> length (data (heap c r)) \<le> length (data (heap c' r)))"
  using assms
proof (induction rule: rtranclp_induct)
  case base
  show ?case by simp
next
  case (step c1 c2)
  from public_step_cells [OF step.hyps(2), of r] step.IH show ?case
    by auto
qed

lemma reachable_public_step:
  assumes "reachable ts c" and "public_step c c'"
  shows "\<exists>ts'. reachable ts' c'"
  using assms(2)
proof (cases rule: public_step.cases)
  case (step_openFile d path m now res)
  from reach_openFile [OF assms(1) this] show ?thesis ..
next
  case (step_write h buffer sz count now n h')
  from reach_write [OF assms(1) this] show ?thesis ..
next
  case (step_handle_flush h d res h')
  from reach_handle_flush [OF assms(1) this] show ?thesis ..
next
  case (step_closeFile h d now ok)
  from reach_closeFile [OF assms(1) this] show ?thesis ..
next
  case (step_flush d)
  with reach_flush [OF assms(1), of d] show ?thesis by auto
next
  case (step_resizeCache newMaxSize now)
  from reach_resizeCache [OF assms(1) this] show ?thesis ..
next
  case (step_setFileTypePriority extension priority now)
  with reach_setFileTypePriority [OF assms(1), of now extension priority] show ?thesis by auto
qed

text \<open>
  C3, as the code has it. \<open>metadata.fileSize\<close> is the buffer length at admission and is
  never written afterwards.
  \<^item> In every reachable state every resident entry has \<open>fileSize\<close> at most its buffer
    length.
  \<^item> An \<open>openFile\<close> that admits an entry (a miss) returns a handle over an entry whose
    \<open>fileSize\<close> equals its buffer length, and so does every entry that a public
    operation allocates.
  \<^item> A handle write leaves the \<open>metadata\<close> of its entry unchanged and never shortens the
    buffer.
  \<^item> Over any run of public operations (open, write, handle flush, close, engine flush,
    resize, set type priority) every allocated entry keeps its \<open>metadata\<close>, and its buffer
    never gets shorter.
  \<^item> A public operation changes the buffer of an allocated entry only if it is a write
    through a handle over that entry.
  \<^item> So for an entry whose \<open>fileSize\<close> equals its buffer length, after any run the two are
    equal exactly when the buffer still has the length it had: until a write has grown it.
\<close>

theorem C3_fileSize_is_size_at_admission:
  assumes "reachable ts c"
  shows "(\<forall>kv \<in> set (cacheMap c).
            fileSize (metadata (heap c (snd kv))) \<le> length (data (heap c (snd kv))))
         \<and> (\<forall>d path m now h c'.
               map_of (cacheMap c) path = None \<longrightarrow> openFile d path m now c = Inr (Some h, c') \<longrightarrow>
               fileSize (metadata (heap c' (entry h))) = length (data (heap c' (entry h))))
         \<and> (\<forall>h buffer sz count now n h' c'.
               CacheFile_write h buffer sz count now c = Inr (n, h', c') \<longrightarrow>
               metadata (heap c' (entry h)) = metadata (heap c (entry h))
               \<and> length (data (heap c (entry h))) \<le> length (data (heap c' (entry h))))
         \<and> (\<forall>c' r. public_step c c' \<longrightarrow> next_ref c \<le> r \<longrightarrow> r < next_ref c' \<longrightarrow>
               fileSize (metadata (heap c' r)) = length (data (heap c' r)))
         \<and> (\<forall>c' r. public_step\<^sup>*\<^sup>* c c' \<longrightarrow> r < next_ref c \<longrightarrow>
               metadata (heap c' r) = metadata (heap c r)
               \<and> length (data (heap c r)) \<le> length (data (heap c' r)))
         \<and> (\<forall>c' r. public_step c c' \<longrightarrow> r < next_ref c \<longrightarrow>
               data (heap c' r) \<noteq> data (heap c r) \<longrightarrow>
               (\<exists>h buffer sz count now n h'.
                   entry h = r \<and> CacheFile_write h buffer sz count now c = Inr (n, h', c')))
         \<and> (\<forall>c' r. public_step\<^sup>*\<^sup>* c c' \<longrightarrow> r < next_ref c \<longrightarrow>
               fileSize (metadata (heap c r)) = length (data (heap c r)) \<longrightarrow>
               (fileSize (metadata (heap c' r)) = length (data (heap c' r)))
                 = (length (data (heap c' r)) = length (data (heap c r))))"
proof (intro conjI ballI allI impI)
  from assms have inv: "engine_inv ts c" by (rule reachable_engine_inv)
  fix kv assume "kv \<in> set (cacheMap c)"
  with inv have "snd kv < next_ref c" by (simp add: engine_inv_def)
  with inv have "cell_ok ts (heap c (snd kv))" by (rule engine_inv_cell)
  then show "fileSize (metadata (heap c (snd kv))) \<le> length (data (heap c (snd kv)))"
    by (rule cell_ok_size)
next
  fix d path m now h c'
  assume "map_of (cacheMap c) path = None" and "openFile d path m now c = Inr (Some h, c')"
  then show "fileSize (metadata (heap c' (entry h))) = length (data (heap c' (entry h)))"
    by (rule openFile_miss_admits_exact_size)
next
  fix h buffer sz count now n h' c'
  assume w: "CacheFile_write h buffer sz count now c = Inr (n, h', c')"
  from CacheFile_write_keeps_metadata [OF w]
  show "metadata (heap c' (entry h)) = metadata (heap c (entry h))"
    and "length (data (heap c (entry h))) \<le> length (data (heap c' (entry h)))"
    by simp_all
next
  fix c' r assume "public_step c c'" and "next_ref c \<le> r" and "r < next_ref c'"
  with public_step_cells [of c c' r]
  show "fileSize (metadata (heap c' r)) = length (data (heap c' r))"
    by simp
next
  fix c' r assume run: "public_step\<^sup>*\<^sup>* c c'" and r: "r < next_ref c"
  from public_run_cells [OF run, of r] r
  show "metadata (heap c' r) = metadata (heap c r)"
    and "length (data (heap c r)) \<le> length (data (heap c' r))"
    by simp_all
next
  fix c' r assume "public_step c c'" and "r < next_ref c"
    and "data (heap c' r) \<noteq> data (heap c r)"
  with public_step_cells [of c c' r]
  show "\<exists>h buffer sz count now n h'.
          entry h = r \<and> CacheFile_write h buffer sz count now c = Inr (n, h', c')"
    by simp
next
  fix c' r assume run: "public_step\<^sup>*\<^sup>* c c'" and r: "r < next_ref c"
    and "fileSize (metadata (heap c r)) = length (data (heap c r))"
  with public_run_cells [OF run, of r]
  show "(fileSize (metadata (heap c' r)) = length (data (heap c' r)))
          = (length (data (heap c' r)) = length (data (heap c r)))"
    by auto
qed

theorem C3_fileSize_is_size_at_admission_witness:
  "(case openFile missing_disk ''a.txt'' ''w'' 0 (ContentAwareCache_init 100) of
      Inr (Some h, c1) \<Rightarrow>
        fileSize (metadata (heap c1 (entry h))) = length (data (heap c1 (entry h))) \<and>
        (case CacheFile_write h ''abc'' 1 3 0 c1 of
           Inr (n, h', c2) \<Rightarrow>
             metadata (heap c2 (entry h)) = metadata (heap c1 (entry h))
             \<and> fileSize (metadata (heap c2 (entry h))) \<le> length (data (heap c2 (entry h)))
             \<and> (case closeFile missing_disk (Some h') 5 c2 of
                   (ok, c3) \<Rightarrow>
                     metadata (heap c3 (entry h)) = metadata (heap c1 (entry h))
                     \<and> fileSize (metadata (heap c3 (entry h))) \<noteq> length (data (heap c3 (entry h))))
         | Inl f \<Rightarrow> False)
    | _ \<Rightarrow> False)"
proof -
  have "\<exists>h c1. openFile missing_disk ''a.txt'' ''w'' 0 (ContentAwareCache_init 100) = Inr (Some h, c1)
          \<and> entry h = 0 \<and> next_ref c1 = 1
          \<and> (\<exists>n h' c2. CacheFile_write h ''abc'' 1 3 0 c1 = Inr (n, h', c2)
                 \<and> cacheMap c2 = [(''a.txt'', 0)] \<and> entry h' = 0 \<and> next_ref c2 = 1
                 \<and> (\<exists>ok c3. closeFile missing_disk (Some h') 5 c2 = (ok, c3)
                        \<and> length (data (heap c3 0)) = 3))"
    by (simp add: trace_defs closeFile_def CacheFile_destroy_def CacheFile_flush_def
          updateEntryScore_def) blast
  then obtain h c1 n h' c2 ok c3 where
    opened: "openFile missing_disk ''a.txt'' ''w'' 0 (ContentAwareCache_init 100) = Inr (Some h, c1)"
    and h: "entry h = 0" and allocated: "next_ref c1 = 1"
    and written: "CacheFile_write h ''abc'' 1 3 0 c1 = Inr (n, h', c2)"
    and resident: "cacheMap c2 = [(''a.txt'', 0)]"
    and h': "entry h' = 0" and allocated2: "next_ref c2 = 1"
    and closed: "closeFile missing_disk (Some h') 5 c2 = (ok, c3)"
    and len3: "length (data (heap c3 0)) = 3"
    by blast
  have r0: "reachable [] (ContentAwareCache_init 100)"
    by (rule reach_init)
  have r1: "reachable [0] c1"
    by (rule reach_openFile [OF r0 opened])
  have live: "entry h < next_ref c1"
    by (simp add: h allocated)
  then have r2: "reachable [0, 0] c2"
    by (rule reach_write [OF r1 _ written])
  have s12: "public_step c1 c2"
    by (rule step_write [OF live written])
  have "entry h' < next_ref c2"
    by (simp add: h' allocated2)
  then have s23: "public_step c2 c3"
    by (rule step_closeFile [OF _ closed])
  from s12 s23 have run: "public_step\<^sup>*\<^sup>* c1 c3"
    by auto
  have miss: "map_of (cacheMap (ContentAwareCache_init 100)) ''a.txt'' = None"
    by (simp add: ContentAwareCache_init_def)
  from C3_fileSize_is_size_at_admission [OF r0, THEN conjunct2, THEN conjunct1] miss opened
  have eq1: "fileSize (metadata (heap c1 (entry h))) = length (data (heap c1 (entry h)))"
    by blast
  have len1: "length (data (heap c1 (entry h))) = 0"
    using opened by (auto simp: trace_defs)
  from C3_fileSize_is_size_at_admission [OF r1, THEN conjunct2, THEN conjunct2, THEN conjunct1] written
  have keep2: "metadata (heap c2 (entry h)) = metadata (heap c1 (entry h))"
    by blast
  from C3_fileSize_is_size_at_admission [OF r2, THEN conjunct1] resident
  have le2: "fileSize (metadata (heap c2 (entry h))) \<le> length (data (heap c2 (entry h)))"
    by (simp add: h)
  from C3_fileSize_is_size_at_admission [OF r1, THEN conjunct2, THEN conjunct2, THEN conjunct2, THEN conjunct2, THEN conjunct1] run live
  have keep3: "metadata (heap c3 (entry h)) = metadata (heap c1 (entry h))"
    by blast
  from C3_fileSize_is_size_at_admission [OF r1, THEN conjunct2, THEN conjunct2, THEN conjunct2, THEN conjunct2, THEN conjunct2, THEN conjunct2] run live eq1
  have "(fileSize (metadata (heap c3 (entry h))) = length (data (heap c3 (entry h))))
          = (length (data (heap c3 (entry h))) = length (data (heap c1 (entry h))))"
    by blast
  then have ne3: "fileSize (metadata (heap c3 (entry h))) \<noteq> length (data (heap c3 (entry h)))"
    using len1 len3 by (simp add: h)
  from eq1 keep2 le2 keep3 ne3 show ?thesis
    using opened written closed by simp
qed

section \<open>Score range, on reachable states\<close>

text \<open>
  The range of C7 holds while the clock does not go back. The type priorities of a
  reachable engine lie in \<open>[0, 1]\<close>, so the scorer, applied to any entry at a clock reading
  that is not earlier than the entry's last access, returns a value in \<open>[0, 1]\<close>; and when
  the clock readings of the operations never went back, the stored score of every resident
  entry lies in \<open>[0, 1]\<close>. Scores are computed over the reals.
\<close>

theorem C7_scores_in_unit_interval:
  assumes "reachable ts c" and "clock_monotone ts"
  shows "(\<forall>kv \<in> set (cacheMap c).
            0 \<le> priorityScore (heap c (snd kv)) \<and> priorityScore (heap c (snd kv)) \<le> 1)
         \<and> (\<forall>(e::CacheEntry) now. lastAccessed (stats e) \<le> now \<longrightarrow>
               0 \<le> calculatePriorityScore (fileTypePriorities c) e now
               \<and> calculatePriorityScore (fileTypePriorities c) e now \<le> 1)"
proof (intro conjI ballI allI impI)
  from assms(1) have inv: "engine_inv ts c" by (rule reachable_engine_inv)
  {
    fix kv assume "kv \<in> set (cacheMap c)"
    with inv have "snd kv < next_ref c" by (simp add: engine_inv_def)
    with inv have "cell_ok ts (heap c (snd kv))" by (rule engine_inv_cell)
    with assms(2) show "0 \<le> priorityScore (heap c (snd kv))"
      and "priorityScore (heap c (snd kv)) \<le> 1"
      by (simp_all add: cell_ok_def)
  }
  fix e :: CacheEntry and now assume "lastAccessed (stats e) \<le> now"
  with engine_inv_parts(1) [OF inv]
  have "0 \<le> calculatePriorityScore (fileTypePriorities c) e now
        \<and> calculatePriorityScore (fileTypePriorities c) e now \<le> 1"
    by (rule calculatePriorityScore_bounds)
  then show "0 \<le> calculatePriorityScore (fileTypePriorities c) e now"
    and "calculatePriorityScore (fileTypePriorities c) e now \<le> 1"
    by simp_all
qed

theorem C7_scores_in_unit_interval_witness:
  "(case openFile hello_disk ''a.txt'' ''r'' 0 (ContentAwareCache_init 100) of
      Inr (Some h, c1) \<Rightarrow>
        clock_monotone [0]
        \<and> map_of (cacheMap c1) ''a.txt'' = Some (entry h)
        \<and> 0 \<le> priorityScore (heap c1 (entry h)) \<and> priorityScore (heap c1 (entry h)) \<le> 1
    | _ \<Rightarrow> False)"
proof -
  have "\<exists>h c1. openFile hello_disk ''a.txt'' ''r'' 0 (ContentAwareCache_init 100) = Inr (Some h, c1)
          \<and> entry h = 0 \<and> cacheMap c1 = [(''a.txt'', 0)]"
    by (simp add: trace_defs)
  then obtain h c1 where
    opened: "openFile hello_disk ''a.txt'' ''r'' 0 (ContentAwareCache_init 100) = Inr (Some h, c1)"
    and h: "entry h = 0" and resident: "cacheMap c1 = [(''a.txt'', 0)]"
    by blast
  have "reachable [] (ContentAwareCache_init 100)"
    by (rule reach_init)
  then have r1: "reachable [0] c1"
    by (rule reach_openFile [OF _ opened])
  have mono: "clock_monotone [0]"
    by (simp add: clock_monotone_def)
  from C7_scores_in_unit_interval [OF r1 mono] resident
  have "0 \<le> priorityScore (heap c1 0) \<and> priorityScore (heap c1 0) \<le> 1"
    by simp
  with mono show ?thesis
    by (simp add: opened h resident)
qed

section \<open>Handle cursor, all operations\<close>

text \<open>
  C9. \<open>CacheFile::write\<close> enlarges the buffer only inside \<open>if (auto cache =
  cachePtr.lock())\<close>, and copies and advances the cursor whether or not the lock was
  obtained. \<open>a.txt\<close>, five bytes, is opened for appending, and two bytes are written
  through the handle when \<open>cachePtr.lock()\<close> fails (the engine is gone, or was never
  owned by a \<open>shared_ptr\<close>): the buffer keeps its five bytes, the \<open>memcpy\<close> writes past its
  end, and the statements on \<open>position\<close> leave the cursor at 7. With the lock obtained the
  same write returns with the cursor at 7 and a buffer of seven bytes.
\<close>

theorem C9_write_without_engine_overruns:
  "(case openFile hello_disk ''a.txt'' ''a'' 0 (ContentAwareCache_init 100) of
      Inr (Some h, c1) \<Rightarrow>
        position h = 0 \<and> length (data (heap c1 (entry h))) = 5
        \<and> CacheFile_write (h\<lparr>cachePtr := False\<rparr>) ''xy'' 1 2 0 c1 = Inl OutOfBounds
        \<and> CacheFile_write_cursor (h\<lparr>cachePtr := False\<rparr>) 1 2 c1 = 7
        \<and> (case CacheFile_write h ''xy'' 1 2 0 c1 of
              Inr (n, h', c2) \<Rightarrow> position h' = 7 \<and> length (data (heap c2 (entry h'))) = 7
            | Inl f \<Rightarrow> False)
    | _ \<Rightarrow> False)"
  by (simp add: trace_defs CacheFile_write_cursor_def)

text \<open>
  What holds of the cursor otherwise. For a handle whose cursor is within its entry's
  buffer (as it is after \<open>openFile\<close>, at 0), with the buffer shorter than \<open>2^63\<close> bytes (no
  \<open>std::vector<char>\<close> is longer) and the offset a \<open>long\<close>:
  a read that returns leaves the cursor between its old value and the end of the buffer;
  a write that returns leaves it at most at the end of the buffer, which the write may have
  grown and never shortens;
  a seek from the beginning, the cursor or the end returns \<open>-1\<close> and leaves the handle as
  it was when the position asked for is negative or beyond the buffer length, and
  otherwise returns 0 and moves the cursor there; a seek with any other origin returns
  \<open>-1\<close> and leaves the handle as it was; after any seek the cursor is within the buffer.
\<close>

theorem cursor_within_buffer:
  assumes "position h \<le> length (data (heap c (entry h)))"
      and "length (data (heap c (entry h))) < 2 ^ 63"
      and "- (2 ^ 63) \<le> offset" and "offset < 2 ^ 63"
  shows "(\<forall>n bs h'. CacheFile_read h sz count c = Inr (n, bs, h') \<longrightarrow>
            entry h' = entry h \<and> position h \<le> position h'
            \<and> position h' \<le> length (data (heap c (entry h))))
         \<and> (\<forall>n h' c'. CacheFile_write h buffer wsz wcount now c = Inr (n, h', c') \<longrightarrow>
               entry h' = entry h \<and> position h' \<le> length (data (heap c' (entry h)))
               \<and> length (data (heap c (entry h))) \<le> length (data (heap c' (entry h))))
         \<and> (origin = SEEK_SET \<or> origin = SEEK_CUR \<or> origin = SEEK_END \<longrightarrow>
               CacheFile_seek h offset origin c
                 = (if seek_target h offset origin c < 0
                       \<or> seek_target h offset origin c > int (length (data (heap c (entry h))))
                    then (-1, h)
                    else (0, h\<lparr>position := nat (seek_target h offset origin c)\<rparr>)))
         \<and> (origin \<noteq> SEEK_SET \<and> origin \<noteq> SEEK_CUR \<and> origin \<noteq> SEEK_END \<longrightarrow>
               CacheFile_seek h offset origin c = (-1, h))
         \<and> position (snd (CacheFile_seek h offset origin c)) \<le> length (data (heap c (entry h)))"
proof (intro conjI allI impI)
  fix n bs h' assume "CacheFile_read h sz count c = Inr (n, bs, h')"
  from read_cursor [OF assms(1,2) this]
  show "entry h' = entry h" and "position h \<le> position h'"
    and "position h' \<le> length (data (heap c (entry h)))"
    by simp_all
next
  fix n h' c' assume w: "CacheFile_write h buffer wsz wcount now c = Inr (n, h', c')"
  from write_cursor [OF assms(1) w]
  show "entry h' = entry h" and "position h' \<le> length (data (heap c' (entry h)))"
    by simp_all
  from CacheFile_write_keeps_metadata [OF w]
  show "length (data (heap c (entry h))) \<le> length (data (heap c' (entry h)))"
    by simp
next
  assume "origin = SEEK_SET \<or> origin = SEEK_CUR \<or> origin = SEEK_END"
  with assms show "CacheFile_seek h offset origin c
                 = (if seek_target h offset origin c < 0
                       \<or> seek_target h offset origin c > int (length (data (heap c (entry h))))
                    then (-1, h)
                    else (0, h\<lparr>position := nat (seek_target h offset origin c)\<rparr>))"
    by (rule seek_cursor)
next
  assume "origin \<noteq> SEEK_SET \<and> origin \<noteq> SEEK_CUR \<and> origin \<noteq> SEEK_END"
  then show "CacheFile_seek h offset origin c = (-1, h)"
    by (simp add: CacheFile_seek_def)
next
  from assms(1) show "position (snd (CacheFile_seek h offset origin c)) \<le> length (data (heap c (entry h)))"
    by (rule seek_cursor_any_origin)
qed

theorem cursor_within_buffer_example:
  "CacheFile_read mid_handle 1 2 (tied_cache [(''a.txt'', 0)] [''a.txt''])
     = Inr (2, ''ll'', mid_handle\<lparr>position := 4\<rparr>)
   \<and> CacheFile_seek mid_handle (-3) SEEK_CUR (tied_cache [(''a.txt'', 0)] [''a.txt''])
     = (-1, mid_handle)
   \<and> CacheFile_seek mid_handle 4 SEEK_CUR (tied_cache [(''a.txt'', 0)] [''a.txt''])
     = (-1, mid_handle)
   \<and> CacheFile_seek mid_handle (-2) SEEK_END (tied_cache [(''a.txt'', 0)] [''a.txt''])
     = (0, mid_handle\<lparr>position := 3\<rparr>)"
proof -
  let ?c = "tied_cache [(''a.txt'', 0)] [''a.txt'']"
  have buf: "data (heap ?c (entry mid_handle)) = ''hello''" and pos: "position mid_handle = 2"
    by (simp_all add: mid_handle_def CacheFile_init_def tied_cache_def tied_entry_def)
  have pre: "position mid_handle \<le> length (data (heap ?c (entry mid_handle)))"
    "length (data (heap ?c (entry mid_handle))) < 2 ^ 63"
    by (simp_all add: buf pos)
  have rd: "CacheFile_read mid_handle 1 2 ?c = Inr (2, ''ll'', mid_handle\<lparr>position := 4\<rparr>)"
    by (simp add: CacheFile_read_def Let_def size_t_def size_t_sub_def mid_handle_def
          CacheFile_init_def tied_cache_def tied_entry_def)
  have "CacheFile_seek mid_handle (-3) SEEK_CUR ?c = (-1, mid_handle)"
    using cursor_within_buffer [OF pre, of "-3" 1 2 "[]" 0 0 0 SEEK_CUR]
    by (simp add: seek_target_def SEEK_CUR_def SEEK_SET_def pos buf)
  moreover have "CacheFile_seek mid_handle 4 SEEK_CUR ?c = (-1, mid_handle)"
    using cursor_within_buffer [OF pre, of 4 1 2 "[]" 0 0 0 SEEK_CUR]
    by (simp add: seek_target_def SEEK_CUR_def SEEK_SET_def pos buf)
  moreover have "CacheFile_seek mid_handle (-2) SEEK_END ?c = (0, mid_handle\<lparr>position := 3\<rparr>)"
    using cursor_within_buffer [OF pre, of "-2" 1 2 "[]" 0 0 0 SEEK_END]
    by (simp add: seek_target_def SEEK_CUR_def SEEK_SET_def SEEK_END_def pos buf)
  ultimately show ?thesis
    using rd by simp
qed

text \<open>
  A write through a handle that may write and whose \<open>cachePtr.lock()\<close> succeeds returns
  in every reachable state (the caller's buffer holding the bytes, the sizes within
  \<open>size_t\<close>): it returns \<open>count\<close>, and the cursor has advanced to a position within the
  buffer.
\<close>

lemma live_write_returns:
  assumes "reachable ts c" and "cachePtr h"
      and "CHR ''w'' \<in> set (mode h) \<or> CHR ''a'' \<in> set (mode h)"
      and "position h \<le> length (data (heap c (entry h)))"
      and "length (data (heap c (entry h))) + sz * count < 2 ^ 64"
      and "sz * count \<le> length buffer"
  shows "\<exists>c'. CacheFile_write h buffer sz count now c
                 = Inr (count, h\<lparr>position := CacheFile_write_cursor h sz count c, modified := True\<rparr>, c')
               \<and> position h \<le> CacheFile_write_cursor h sz count c
               \<and> CacheFile_write_cursor h sz count c \<le> length (data (heap c' (entry h)))"
proof -
  define e where "e = entry h"
  define bytesToWrite where "bytesToWrite = size_t (sz * count)"
  define pos where "pos = (if CHR ''a'' \<in> set (mode h) \<and> position h \<noteq> length (data (heap c e))
                           then length (data (heap c e)) else position h)"
  from assms(3) have permitted: "\<not> (CHR ''w'' \<notin> set (mode h) \<and> CHR ''a'' \<notin> set (mode h))"
    by auto
  have wr: "CacheFile_write h buffer sz count now c
      = (case (if size_t (pos + bytesToWrite) > length (data (heap c e)) \<and> cachePtr h
               then grow_entry e (size_t (pos + bytesToWrite)) now c else Inr c) of
           Inl f \<Rightarrow> Inl f
         | Inr c1 \<Rightarrow>
             if length buffer < bytesToWrite \<or> pos + bytesToWrite > length (data (heap c1 e))
             then Inl OutOfBounds
             else Inr (count,
                       h\<lparr>position := size_t (pos + bytesToWrite), modified := True\<rparr>,
                       c1\<lparr>heap := (heap c1)(e := (heap c1 e)
                          \<lparr>data := take pos (data (heap c1 e)) @ take bytesToWrite buffer
                                     @ drop (pos + bytesToWrite) (data (heap c1 e))\<rparr>)\<rparr>))"
    unfolding CacheFile_write_def Let_def pos_def bytesToWrite_def e_def
    using permitted by (simp only: if_False)
  have cursor: "CacheFile_write_cursor h sz count c = size_t (pos + bytesToWrite)"
    by (simp add: CacheFile_write_cursor_def Let_def pos_def bytesToWrite_def e_def)
  have btw: "bytesToWrite = sz * count"
    unfolding bytesToWrite_def using assms(5) by (intro size_t_id) simp
  have pos: "position h \<le> pos" "pos \<le> length (data (heap c e))"
    using assms(4) by (auto simp: pos_def e_def)
  then have sum: "size_t (pos + bytesToWrite) = pos + bytesToWrite"
    using assms(5) by (intro size_t_id) (simp add: e_def btw)
  from assms(1) have "lru_ok c"
    by (intro engine_inv_parts(2) reachable_engine_inv)
  show ?thesis
  proof (cases "pos + bytesToWrite > length (data (heap c e))")
    case True
    from makeRoomInCache_returns [OF \<open>lru_ok c\<close>] obtain cm where
      room: "makeRoomInCache (size_t_sub (pos + bytesToWrite) (length (data (heap c e)))) now c = Inr cm"
      by blast
    define c1 where "c1 = cm\<lparr>heap := (heap cm)(e := (heap cm e)
                         \<lparr>data := resize (pos + bytesToWrite) (data (heap cm e))\<rparr>),
                       currentCacheSize := size_t (currentCacheSize cm
                         + size_t_sub (pos + bytesToWrite) (length (data (heap c e))))\<rparr>"
    have grown: "grow_entry e (pos + bytesToWrite) now c = Inr c1"
      by (simp add: grow_entry_def Let_def room c1_def)
    have len: "length (data (heap c1 e)) = pos + bytesToWrite"
      by (simp add: c1_def length_resize)
    from assms(6) have enough: "\<not> length buffer < bytesToWrite"
      by (simp add: btw)
    show ?thesis
      unfolding wr cursor sum e_def [symmetric]
      using True assms(2) pos enough
      by (simp add: grown len)
  next
    case False
    from assms(6) have enough: "\<not> length buffer < bytesToWrite"
      by (simp add: btw)
    show ?thesis
      unfolding wr cursor sum e_def [symmetric]
      using False pos enough
      by simp
  qed
qed

section \<open>Operations return on reachable states\<close>

text \<open>
  In a reachable state the LRU index only holds keys of the entry map, so the eviction
  loop always ends: \<open>openFile\<close> returns, and a handle write returns unless its
  \<open>memcpy\<close> leaves a buffer.
\<close>

lemma reachable_openFile_returns:
  assumes "reachable ts c"
  shows "\<exists>res. openFile d path m now c = Inr res"
proof -
  from assms have "lru_ok c"
    by (intro engine_inv_parts(2) reachable_engine_inv)
  then have "lru_ok (c\<lparr>cacheMisses := cacheMisses c + 1\<rparr>)"
    by (simp add: lru_ok_def)
  from makeRoomInCache_returns [OF this]
  have "\<exists>res. loadFileIntoCache d path now (c\<lparr>cacheMisses := cacheMisses c + 1\<rparr>) = Inr res"
    by (auto simp: loadFileIntoCache_def Let_def split: option.splits sum.splits prod.splits)
       (metis sum.distinct(1))+
  then show ?thesis
    by (auto simp: openFile_def Let_def split: option.splits sum.splits prod.splits)
qed

lemma reachable_write_returns_or_out_of_bounds:
  assumes "reachable ts c"
  shows "(\<exists>res. CacheFile_write h buffer sz count now c = Inr res)
         \<or> CacheFile_write h buffer sz count now c = Inl OutOfBounds"
proof -
  from assms have "lru_ok c"
    by (intro engine_inv_parts(2) reachable_engine_inv)
  from makeRoomInCache_returns [OF this]
  have "\<exists>c1. grow_entry r newSize now c = Inr c1" for r newSize
    by (auto simp: grow_entry_def Let_def split: sum.splits) (metis sum.distinct(1))
  then obtain g where g: "\<And>r newSize. grow_entry r newSize now c = Inr (g r newSize)"
    by metis
  show ?thesis
    by (simp add: CacheFile_write_def Let_def g)
qed

end
